theory Spec2Isabelle
  imports Complex_Main "HOL-Library.Sublist"
begin

section \<open>Strings of the extension\<close>

text \<open>
  The extension is TypeScript; its strings are sequences of code units. The embedding
  takes them as \<^typ>\<open>string\<close> and names the two line-ending characters.
\<close>

abbreviation LF :: char where "LF \<equiv> CHR 0x0A"
abbreviation CR :: char where "CR \<equiv> CHR 0x0D"

text \<open>\<^verbatim>\<open>s.startsWith(p)\<close>\<close>

definition startsWith :: "string \<Rightarrow> string \<Rightarrow> bool" where
  "startsWith s p = prefix p s"

text \<open>
  \<^verbatim>\<open>hay.indexOf(needle)\<close>: the least index at which \<open>needle\<close> starts, \<open>None\<close> for the
  source's \<open>-1\<close>. The empty needle is found at index 0.
\<close>

fun indexOf :: "string \<Rightarrow> string \<Rightarrow> nat option" where
  "indexOf [] needle = (if needle = [] then Some 0 else None)"
| "indexOf (c # cs) needle =
     (if prefix needle (c # cs) then Some 0 else map_option Suc (indexOf cs needle))"

text \<open>\<^verbatim>\<open>const normalize = (s: string) => s.replace(/\r\n/g, '\n');\<close>\<close>

fun normalize :: "string \<Rightarrow> string" where
  "normalize [] = []"
| "normalize [c] = [c]"
| "normalize (c # d # r) =
     (if c = CR \<and> d = LF then LF # normalize r else c # normalize (d # r))"

section \<open>The SEARCH/REPLACE block expression\<close>

text \<open>
  \<^verbatim>\<open>/<<<<<<< SEARCH\r?\n([\s\S]*?)\r?\n=======\r?\n([\s\S]*?)\r?\n>>>>>>> REPLACE/g\<close>

  The expression is embedded piece by piece as a backtracking matcher: every piece takes
  the text at the current position and a continuation for the rest of the expression, and
  returns the first success in the order the engine tries the alternatives.
\<close>

definition SEARCH_MARK :: string where "SEARCH_MARK = ''<<<<<<< SEARCH''"
definition SEP_MARK :: string where "SEP_MARK = ''=======''"
definition REPLACE_MARK :: string where "REPLACE_MARK = ''>>>>>>> REPLACE''"

text \<open>A literal piece: the text behind it, when the text starts with it.\<close>

definition literal :: "string \<Rightarrow> string \<Rightarrow> string option" where
  "literal p s = (if prefix p s then Some (drop (length p) s) else None)"

text \<open>
  \<^verbatim>\<open>\r?\n\<close>. The greedy \<^verbatim>\<open>\r?\<close> first takes a carriage return; leaving it out is only
  tried when the rest fails, and then the \<^verbatim>\<open>\n\<close> meets that carriage return and fails as
  well, so the piece has one way to match.
\<close>

fun eol :: "string \<Rightarrow> string option" where
  "eol [] = None"
| "eol [c] = (if c = LF then Some [] else None)"
| "eol (c # d # r) =
     (if c = CR \<and> d = LF then Some r else if c = LF then Some (d # r) else None)"

text \<open>
  \<^verbatim>\<open>([\s\S]*?)\<close> followed by the rest \<open>k\<close> of the expression: the lazy group is tried
  with 0, 1, 2, ... code units, and the first length at which the rest matches wins.
\<close>

fun lazy_group :: "(string \<Rightarrow> 'a option) \<Rightarrow> string \<Rightarrow> (string \<times> 'a) option" where
  "lazy_group k [] = map_option (Pair []) (k [])"
| "lazy_group k (c # cs) =
     (case k (c # cs) of
        Some r \<Rightarrow> Some ([], r)
      | None \<Rightarrow> map_option (\<lambda>(g, r). (c # g, r)) (lazy_group k cs))"

text \<open>\<^verbatim>\<open>\r?\n>>>>>>> REPLACE\<close>, the end of the expression.\<close>

definition replace_tail :: "string \<Rightarrow> string option" where
  "replace_tail s = Option.bind (eol s) (literal REPLACE_MARK)"

text \<open>\<^verbatim>\<open>\r?\n=======\r?\n([\s\S]*?)\r?\n>>>>>>> REPLACE\<close>\<close>

definition separator_on :: "string \<Rightarrow> (string \<times> string) option" where
  "separator_on s =
     Option.bind (eol s) (\<lambda>a. Option.bind (literal SEP_MARK a)
       (\<lambda>b. Option.bind (eol b) (lazy_group replace_tail)))"

text \<open>
  The whole expression at one position: the two captures and the text behind the match.
\<close>

definition blockRegex_at :: "string \<Rightarrow> (string \<times> string \<times> string) option" where
  "blockRegex_at s =
     Option.bind (literal SEARCH_MARK s) (\<lambda>a. Option.bind (eol a)
       (\<lambda>b. map_option (\<lambda>(search, replace, rest). (search, replace, rest))
               (lazy_group separator_on b)))"

text \<open>
  \<^verbatim>\<open>blockRegex.exec(diff)\<close> with the \<^verbatim>\<open>g\<close> flag: the argument is the text from
  \<^verbatim>\<open>lastIndex\<close> on, the match is looked for at every position from there, and the
  text behind the match is where the next call starts.
\<close>

fun blockRegex_exec :: "string \<Rightarrow> (string \<times> string \<times> string) option" where
  "blockRegex_exec [] = blockRegex_at []"
| "blockRegex_exec (c # cs) =
     (case blockRegex_at (c # cs) of
        Some m \<Rightarrow> Some m
      | None \<Rightarrow> blockRegex_exec cs)"

section \<open>applySearchReplace\<close>

text \<open>The user-visible notifications of the extension, by the call that raises them.\<close>

datatype notice =
    SearchBlockNotFound
  | InvalidJson
  | NoCodeChanges
  | MissingStatus
  | FailedToPrepare string
  | FailedToApply
  | AppliedChanges nat
  | RoundPrepared nat nat

datatype severity = Information | Warning | Error

fun severity_of :: "notice \<Rightarrow> severity" where
  "severity_of SearchBlockNotFound = Warning"
| "severity_of InvalidJson = Error"
| "severity_of NoCodeChanges = Warning"
| "severity_of MissingStatus = Warning"
| "severity_of (FailedToPrepare f) = Error"
| "severity_of FailedToApply = Error"
| "severity_of (AppliedChanges n) = Information"
| "severity_of (RoundPrepared r n) = Information"

text \<open>
  The body of the \<^verbatim>\<open>while\<close> loop for one match: \<open>result\<close> and the notifications raised
  so far, then the two captures.
\<close>

definition applyBlock :: "string \<times> notice list \<Rightarrow> string \<times> string \<Rightarrow> string \<times> notice list" where
  "applyBlock st blk =
     (let result = fst st; search = fst blk; replace = snd blk;
          normalizedResult = normalize result;
          normalizedSearch = normalize search
      in case indexOf normalizedResult normalizedSearch of
           Some index \<Rightarrow>
             (take index normalizedResult @ replace
                @ drop (index + length normalizedSearch) normalizedResult, snd st)
         | None \<Rightarrow> (result, snd st @ [SearchBlockNotFound]))"

lemma literal_length: "literal p s = Some r \<Longrightarrow> length r \<le> length s"
  by (auto simp: literal_def split: if_splits)

lemma eol_length: "eol s = Some r \<Longrightarrow> length r < length s"
  by (induction s rule: eol.induct) (auto split: if_splits)

lemma lazy_group_length:
  assumes "\<And>t r. k t = Some r \<Longrightarrow> length (f r) \<le> length t"
  shows "lazy_group k s = Some (g, r) \<Longrightarrow> length (f r) \<le> length s"
proof (induction s arbitrary: g)
  case Nil
  then show ?case using assms[of "[]" r] by auto
next
  case (Cons c cs)
  show ?case
  proof (cases "k (c # cs)")
    case (Some x)
    with Cons.prems assms[of "c # cs" x] show ?thesis by auto
  next
    case None
    with Cons.prems obtain g' where "lazy_group k cs = Some (g', r)" by auto
    from Cons.IH[OF this] show ?thesis by simp
  qed
qed

lemma replace_tail_length: "replace_tail s = Some r \<Longrightarrow> length r \<le> length s"
  by (auto simp: replace_tail_def Option.bind_eq_Some_conv
           dest!: eol_length literal_length)

lemma separator_on_length: "separator_on s = Some (p, r) \<Longrightarrow> length r \<le> length s"
proof -
  assume "separator_on s = Some (p, r)"
  then obtain a b c where a: "eol s = Some a" and b: "literal SEP_MARK a = Some b"
    and c: "eol b = Some c" and g: "lazy_group replace_tail c = Some (p, r)"
    by (auto simp: separator_on_def Option.bind_eq_Some_conv)
  have "length r \<le> length c"
    using lazy_group_length[where f = "\<lambda>x. x", OF replace_tail_length g] by simp
  with eol_length[OF a] literal_length[OF b] eol_length[OF c] show ?thesis by simp
qed

lemma blockRegex_at_length:
  "blockRegex_at s = Some (search, replace, rest) \<Longrightarrow> length rest < length s"
proof -
  assume "blockRegex_at s = Some (search, replace, rest)"
  then obtain a b where a: "literal SEARCH_MARK s = Some a" and b: "eol a = Some b"
    and g: "lazy_group separator_on b = Some (search, replace, rest)"
    by (auto simp: blockRegex_at_def Option.bind_eq_Some_conv)
  have "length (snd (replace, rest)) \<le> length b"
    by (rule lazy_group_length[where f = snd, OF _ g]) (auto dest: separator_on_length)
  with literal_length[OF a] eol_length[OF b] show ?thesis by simp
qed

lemma blockRegex_exec_length:
  "blockRegex_exec s = Some (search, replace, rest) \<Longrightarrow> length rest < length s"
proof (induction s)
  case Nil
  then show ?case by (auto dest: blockRegex_at_length)
next
  case (Cons c cs)
  then show ?case
    by (cases "blockRegex_at (c # cs)") (auto dest: blockRegex_at_length)
qed

text \<open>
  The loop \<^verbatim>\<open>while ((match = blockRegex.exec(diff)) !== null)\<close>, with the text still
  to be scanned as its last argument.
\<close>

function applySearchReplace_loop :: "string \<times> notice list \<Rightarrow> string \<Rightarrow> string \<times> notice list" where
  "applySearchReplace_loop st diff =
     (case blockRegex_exec diff of
        None \<Rightarrow> st
      | Some (search, replace, rest) \<Rightarrow>
          applySearchReplace_loop (applyBlock st (search, replace)) rest)"
  by pat_completeness auto
termination
  by (relation "measure (\<lambda>(st, diff). length diff)") (auto dest: blockRegex_exec_length)

declare applySearchReplace_loop.simps [simp del]

definition applySearchReplace :: "string \<Rightarrow> string \<Rightarrow> string \<times> notice list" where
  "applySearchReplace original diff = applySearchReplace_loop (original, []) diff"

text \<open>The matches the loop goes through, in the order it meets them.\<close>

function blocks :: "string \<Rightarrow> (string \<times> string) list" where
  "blocks diff =
     (case blockRegex_exec diff of
        None \<Rightarrow> []
      | Some (search, replace, rest) \<Rightarrow> (search, replace) # blocks rest)"
  by pat_completeness auto
termination
  by (relation "measure length") (auto dest: blockRegex_exec_length)

declare blocks.simps [simp del]






text \<open>
  White space of \<^verbatim>\<open>trim()\<close> and of \<^verbatim>\<open>\s\<close>: tab, line feed, vertical tab, form feed,
  carriage return, space and the no-break space, the white-space and line-terminator code
  units below 256.
\<close>

definition isSpace :: "char \<Rightarrow> bool" where
  "isSpace c = (c \<in> set [CHR 0x09, CHR 0x0A, CHR 0x0B, CHR 0x0C, CHR 0x0D, CHR 0x20, CHR 0xA0])"

definition trim :: "string \<Rightarrow> string" where
  "trim s = rev (dropWhile isSpace (rev (dropWhile isSpace s)))"

text \<open>\<^verbatim>\<open>patch.split(/\r?\n/)\<close>\<close>

fun split_lines :: "string \<Rightarrow> string list" where
  "split_lines [] = [[]]"
| "split_lines [c] = (if c = LF then [[], []] else [[c]])"
| "split_lines (c # d # r) =
     (if c = CR \<and> d = LF then [] # split_lines r
      else if c = LF then [] # split_lines (d # r)
      else (case split_lines (d # r) of
              l # ls \<Rightarrow> (c # l) # ls
            | [] \<Rightarrow> [[c]]))"

text \<open>\<^verbatim>\<open>hunk.split('\n')\<close>\<close>

fun split_nl :: "string \<Rightarrow> string list" where
  "split_nl [] = [[]]"
| "split_nl (c # cs) =
     (if c = LF then [] # split_nl cs
      else (case split_nl cs of
              l # ls \<Rightarrow> (c # l) # ls
            | [] \<Rightarrow> [[c]]))"

text \<open>\<^verbatim>\<open>xs.join('\n')\<close>\<close>

fun join_nl :: "string list \<Rightarrow> string" where
  "join_nl [] = []"
| "join_nl [l] = l"
| "join_nl (l # m # ls) = l @ LF # join_nl (m # ls)"

text \<open>
  The \<^verbatim>\<open>for (const l of hLines)\<close> loop of \<^verbatim>\<open>pushBlock\<close>: the lines pushed to
  \<^verbatim>\<open>search\<close> and to \<^verbatim>\<open>replace\<close>, without their first character.
\<close>

fun hunk_lines :: "string list \<Rightarrow> string list \<times> string list" where
  "hunk_lines [] = ([], [])"
| "hunk_lines (l # ls) =
     (let (search, replace) = hunk_lines ls
      in if startsWith l '' '' then (drop 1 l # search, drop 1 l # replace)
         else if startsWith l ''-'' then (drop 1 l # search, replace)
         else if startsWith l ''+'' then (search, drop 1 l # replace)
         else (search, replace))"

text \<open>The text \<^verbatim>\<open>pushBlock\<close> pushes for the lines of one hunk.\<close>

definition render_block :: "string list \<Rightarrow> string list \<Rightarrow> string" where
  "render_block search replace =
     SEARCH_MARK @ [LF] @ join_nl search @ [LF] @ SEP_MARK @ [LF]
       @ join_nl replace @ [LF] @ REPLACE_MARK"

text \<open>\<^verbatim>\<open>pushBlock\<close>: the new \<^verbatim>\<open>outBlocks\<close>; the caller empties \<^verbatim>\<open>collects\<close>.\<close>

definition pushBlock :: "string list \<Rightarrow> string list \<Rightarrow> string list" where
  "pushBlock collects outBlocks =
     (if collects \<noteq> []
      then (let hunk = join_nl collects;
                hLines = split_nl hunk;
                (search, replace) = hunk_lines hLines
            in outBlocks @ [render_block search replace])
      else outBlocks)"

definition UPDATE_FILE :: string where "UPDATE_FILE = ''*** Update File:''"
definition END_PATCH :: string where "END_PATCH = ''*** End Patch''"

text \<open>
  The \<^verbatim>\<open>for\<close> loop over the lines, from the current line on, with \<^verbatim>\<open>inUpdate\<close>,
  \<^verbatim>\<open>collects\<close> and \<^verbatim>\<open>outBlocks\<close>; it gives \<^verbatim>\<open>collects\<close> and \<^verbatim>\<open>outBlocks\<close> as
  they are when the loop is left, at the last line or by \<^verbatim>\<open>break\<close>. On an
  \<^verbatim>\<open>*** Update File:\<close> line the marker is at the start of the line, so
  \<^verbatim>\<open>l.replace('*** Update File:', '')\<close> drops that prefix.
\<close>

fun patch_loop ::
  "string \<Rightarrow> bool \<Rightarrow> string list \<Rightarrow> string list \<Rightarrow> string list \<Rightarrow> string list \<times> string list" where
  "patch_loop targetFile inUpdate collects outBlocks [] = (collects, outBlocks)"
| "patch_loop targetFile inUpdate collects outBlocks (l # ls) =
     (if startsWith l UPDATE_FILE
      then patch_loop targetFile (trim (drop (length UPDATE_FILE) l) = targetFile)
             collects outBlocks ls
      else if \<not> inUpdate then patch_loop targetFile inUpdate collects outBlocks ls
      else if startsWith l ''@@''
        then patch_loop targetFile inUpdate [] (pushBlock collects outBlocks) ls
      else if startsWith l END_PATCH then (collects, outBlocks)
      else if startsWith l '' '' \<or> startsWith l ''-'' \<or> startsWith l ''+''
        then patch_loop targetFile inUpdate (collects @ [l]) outBlocks ls
      else patch_loop targetFile inUpdate collects outBlocks ls)"

definition patchEnvelopeToDiffForFile :: "string \<Rightarrow> string \<Rightarrow> string" where
  "patchEnvelopeToDiffForFile patch targetFile =
     (let lines = split_lines patch;
          (collects, outBlocks) = patch_loop targetFile False [] [] lines
      in join_nl (pushBlock collects outBlocks))"


section \<open>One change of a response\<close>

text \<open>
  An entry of \<^verbatim>\<open>code_changes\<close> with its three fields as strings, as the schema of the
  response has them.
\<close>

record change =
  file_path :: string
  type :: string
  content :: string

text \<open>
  The body of \<^verbatim>\<open>for (const change of changes)\<close>: \<^verbatim>\<open>workingContent\<close> and the
  notifications raised so far, before and after one change.
\<close>

definition applyChange :: "string \<times> notice list \<Rightarrow> change \<Rightarrow> string \<times> notice list" where
  "applyChange st change =
     (let workingContent = fst st; noted = snd st
      in if type change = ''FULL_REWRITE'' then (content change, noted)
         else if type change = ''DIFF''
           then (let (result, raised) = applySearchReplace workingContent (content change)
                 in (result, noted @ raised))
         else if type change = ''PATCH''
           then (let asDiff = patchEnvelopeToDiffForFile (content change) (file_path change);
                     (result, raised) = applySearchReplace workingContent asDiff
                 in (result, noted @ raised))
         else (workingContent, noted))"

section \<open>The hunks of an envelope, read directly\<close>

text \<open>
  The groups of lines \<^verbatim>\<open>pushBlock\<close> is called with, in order: the loop of
  \<^const>\<open>patch_loop\<close> with the groups kept as they are instead of their text.
\<close>

fun hunk_loop ::
  "string \<Rightarrow> bool \<Rightarrow> string list \<Rightarrow> string list list \<Rightarrow> string list \<Rightarrow> string list \<times> string list list" where
  "hunk_loop targetFile inUpdate collects hunks [] = (collects, hunks)"
| "hunk_loop targetFile inUpdate collects hunks (l # ls) =
     (if startsWith l UPDATE_FILE
      then hunk_loop targetFile (trim (drop (length UPDATE_FILE) l) = targetFile)
             collects hunks ls
      else if \<not> inUpdate then hunk_loop targetFile inUpdate collects hunks ls
      else if startsWith l ''@@''
        then hunk_loop targetFile inUpdate [] (if collects \<noteq> [] then hunks @ [collects] else hunks) ls
      else if startsWith l END_PATCH then (collects, hunks)
      else if startsWith l '' '' \<or> startsWith l ''-'' \<or> startsWith l ''+''
        then hunk_loop targetFile inUpdate (collects @ [l]) hunks ls
      else hunk_loop targetFile inUpdate collects hunks ls)"

definition patch_hunks :: "string \<Rightarrow> string \<Rightarrow> string list list" where
  "patch_hunks patch targetFile =
     (let (collects, hunks) = hunk_loop targetFile False [] [] (split_lines patch)
      in if collects \<noteq> [] then hunks @ [collects] else hunks)"

text \<open>
  A hunk read directly as a block: the context and removed lines, joined, are the search
  text; the context and added lines, joined, are the replacement.
\<close>

definition hunk_block :: "string list \<Rightarrow> string \<times> string" where
  "hunk_block h = (join_nl (fst (hunk_lines h)), join_nl (snd (hunk_lines h)))"

text \<open>
  A hunk whose text survives the way through the diff text: no line holds a carriage
  return, no search line behind the first is the separator line, and no replacement line
  behind the first begins with the closing marker.
\<close>

definition plain_hunk :: "string list \<Rightarrow> bool" where
  "plain_hunk h =
     ((\<forall>l\<in>set h. CR \<notin> set l)
      \<and> SEP_MARK \<notin> set (tl (fst (hunk_lines h)))
      \<and> (\<forall>l\<in>set (tl (snd (hunk_lines h))). \<not> prefix REPLACE_MARK l))"

text \<open>The text \<^verbatim>\<open>pushBlock\<close> pushes for a group of collected lines.\<close>

definition hunk_text :: "string list \<Rightarrow> string" where
  "hunk_text h = (let (search, replace) = hunk_lines (split_nl (join_nl h))
                  in render_block search replace)"


text \<open>A line without a line-ending character.\<close>

definition plain_line :: "string \<Rightarrow> bool" where
  "plain_line l = (CR \<notin> set l \<and> LF \<notin> set l)"


text \<open>Search and replacement lines that parse back from their rendered block.\<close>

definition renderable :: "string list \<times> string list \<Rightarrow> bool" where
  "renderable b = ((\<forall>l\<in>set (fst b). plain_line l) \<and> SEP_MARK \<notin> set (tl (fst b))
      \<and> (\<forall>l\<in>set (snd b). plain_line l) \<and> (\<forall>l\<in>set (tl (snd b)). \<not> prefix REPLACE_MARK l))"


text \<open>Example envelopes and diffs.\<close>

definition title_content :: string where
  "title_content = join_nl [''Title'', ''======='', ''body'']"

definition title_patch :: string where
  "title_patch = join_nl [''*** Begin Patch'', ''*** Update File: README.md'', ''@@'',
                          '' Title'', ''-======='', ''+-------'', ''*** End Patch'']"

definition rename_patch :: string where
  "rename_patch = join_nl [''*** Begin Patch'', ''*** Update File: src/a.ts'', ''@@'',
                           '' ctx'', ''-old'', ''+new'', ''*** End Patch'']"






section \<open>Parsed JSON\<close>

text \<open>
  A value as \<^verbatim>\<open>JSON.parse\<close> gives it. An object is the list of its properties in
  order; a property read takes the first entry with the key.
\<close>

datatype json =
    JNull
  | JBool bool
  | JNumber real
  | JString string
  | JArray "json list"
  | JObject "(string \<times> json) list"

text \<open>
  \<^verbatim>\<open>v.k\<close> on a value that is not \<^verbatim>\<open>null\<close>, for the keys the handler reads
  (\<^verbatim>\<open>status\<close>, \<^verbatim>\<open>code_changes\<close>, \<^verbatim>\<open>request_files\<close>, \<^verbatim>\<open>type\<close>, \<^verbatim>\<open>file_path\<close>,
  \<^verbatim>\<open>content\<close>): \<open>None\<close> is \<^verbatim>\<open>undefined\<close>. Only objects have such properties.
\<close>

fun get_prop :: "json \<Rightarrow> string \<Rightarrow> json option" where
  "get_prop (JObject ps) k = map_of ps k"
| "get_prop v k = None"

text \<open>The truth value JavaScript gives a value in a condition.\<close>

fun truthy :: "json option \<Rightarrow> bool" where
  "truthy None = False"
| "truthy (Some JNull) = False"
| "truthy (Some (JBool b)) = b"
| "truthy (Some (JNumber n)) = (n \<noteq> 0)"
| "truthy (Some (JString s)) = (s \<noteq> [])"
| "truthy (Some (JArray vs)) = True"
| "truthy (Some (JObject ps)) = True"

text \<open>\<^verbatim>\<open>Array.isArray(v)\<close>\<close>

fun isArray :: "json option \<Rightarrow> bool" where
  "isArray (Some (JArray vs)) = True"
| "isArray v = False"

text \<open>
  \<^verbatim>\<open>{ ...parsed, status: 'COMPLETED' }\<close> on the properties of an object: the property
  keeps its place when the object has it, and is added at the end otherwise.
\<close>

fun set_prop :: "string \<Rightarrow> json \<Rightarrow> (string \<times> json) list \<Rightarrow> (string \<times> json) list" where
  "set_prop k v [] = [(k, v)]"
| "set_prop k v (p # ps) = (if fst p = k then (k, v) # ps else p # set_prop k v ps)"

section \<open>From the pasted text to the response data\<close>

abbreviation DQ :: char where "DQ \<equiv> CHR 0x22"
abbreviation BS :: char where "BS \<equiv> CHR 0x5C"
abbreviation BT :: char where "BT \<equiv> CHR 0x60"

definition FENCE :: string where "FENCE = [BT, BT, BT]"

text \<open>\<^verbatim>\<open>s.replace(/\\/g, "\\\\")\<close> and \<^verbatim>\<open>s.replace(/"/g, '\\"')\<close>\<close>

definition double_backslashes :: "string \<Rightarrow> string" where
  "double_backslashes s = concat (map (\<lambda>c. if c = BS then [BS, BS] else [c]) s)"

definition escape_quotes :: "string \<Rightarrow> string" where
  "escape_quotes s = concat (map (\<lambda>c. if c = DQ then [BS, DQ] else [c]) s)"

text \<open>
  \<^verbatim>\<open>/"content"\s*:\s*"(<<<<<<< SEARCH[\s\S]*?>>>>>>> REPLACE)"/g\<close> at one position: the
  capture and the text behind the match. Each greedy \<^verbatim>\<open>\s*\<close> is followed by a character
  that is no white space, so it takes all the white space there is.
\<close>

definition CONTENT_KEY :: string where "CONTENT_KEY = [DQ] @ ''content'' @ [DQ]"

definition contentRegex_at :: "string \<Rightarrow> (string \<times> string) option" where
  "contentRegex_at s =
     Option.bind (literal CONTENT_KEY s) (\<lambda>a. Option.bind (literal '':'' (dropWhile isSpace a))
       (\<lambda>b. Option.bind (literal [DQ] (dropWhile isSpace b))
         (\<lambda>c. Option.bind (literal SEARCH_MARK c)
           (\<lambda>d. map_option (\<lambda>(g, rest). (SEARCH_MARK @ g @ REPLACE_MARK, rest))
                   (lazy_group (literal (REPLACE_MARK @ [DQ])) d)))))"

text \<open>
  The first match from the current position on: the text before it, the capture and the
  text behind it.
\<close>

fun contentRegex_exec :: "string \<Rightarrow> (string \<times> string \<times> string) option" where
  "contentRegex_exec [] = None"
| "contentRegex_exec (c # cs) =
     (case contentRegex_at (c # cs) of
        Some (g1, rest) \<Rightarrow> Some ([], g1, rest)
      | None \<Rightarrow> map_option (\<lambda>(skipped, g1, rest). (c # skipped, g1, rest)) (contentRegex_exec cs))"

lemma literal_length_eq: "literal p s = Some r \<Longrightarrow> length s = length p + length r"
  by (auto simp: literal_def prefix_def split: if_splits)

lemma contentRegex_at_length: "contentRegex_at s = Some (g1, rest) \<Longrightarrow> length rest < length s"
proof -
  assume "contentRegex_at s = Some (g1, rest)"
  then obtain a b c d g where a: "literal CONTENT_KEY s = Some a"
    and b: "literal '':'' (dropWhile isSpace a) = Some b"
    and c: "literal [DQ] (dropWhile isSpace b) = Some c"
    and d: "literal SEARCH_MARK c = Some d"
    and g: "lazy_group (literal (REPLACE_MARK @ [DQ])) d = Some (g, rest)"
    by (auto simp: contentRegex_at_def Option.bind_eq_Some_conv)
  have "length rest \<le> length d"
    using lazy_group_length[where f = "\<lambda>x. x", OF literal_length g] by simp
  moreover have "length a < length s"
    using literal_length_eq[OF a] by (simp add: CONTENT_KEY_def)
  moreover have "length (dropWhile isSpace a) \<le> length a" by (rule length_dropWhile_le)
  moreover have "length (dropWhile isSpace b) \<le> length b" by (rule length_dropWhile_le)
  ultimately show ?thesis using literal_length[OF b] literal_length[OF c] literal_length[OF d]
    by linarith
qed

lemma contentRegex_exec_length:
  "contentRegex_exec s = Some (skipped, g1, rest) \<Longrightarrow> length rest < length s"
proof (induction s arbitrary: skipped)
  case Nil
  then show ?case by simp
next
  case (Cons c cs)
  show ?case
  proof (cases "contentRegex_at (c # cs)")
    case None
    with Cons.prems obtain sk where "contentRegex_exec cs = Some (sk, g1, rest)" by auto
    from Cons.IH[OF this] show ?thesis by simp
  next
    case (Some m)
    with Cons.prems have "contentRegex_at (c # cs) = Some (g1, rest)" by (cases m) auto
    then show ?thesis by (rule contentRegex_at_length)
  qed
qed

text \<open>
  \<^verbatim>\<open>normalizeJsonLikeResponse\<close>: every match is replaced by \<^verbatim>\<open>"content":"\<close>, the
  capture with its backslashes doubled and its quotes escaped, and a closing quote.
\<close>

function normalizeJsonLikeResponse :: "string \<Rightarrow> string" where
  "normalizeJsonLikeResponse t =
     (case contentRegex_exec t of
        None \<Rightarrow> t
      | Some (skipped, g1, rest) \<Rightarrow>
          skipped @ CONTENT_KEY @ '':'' @ [DQ] @ escape_quotes (double_backslashes g1) @ [DQ]
            @ normalizeJsonLikeResponse rest)"
  by pat_completeness auto
termination
  by (relation "measure length") (auto dest: contentRegex_exec_length)

declare normalizeJsonLikeResponse.simps [simp del]

text \<open>
  \<^verbatim>\<open>t.indexOf(needle, from)\<close>, \<^verbatim>\<open>t.lastIndexOf(needle)\<close>, \<^verbatim>\<open>t.slice(a, b)\<close> and
  \<^verbatim>\<open>t.substring(a, b)\<close> for \<open>a \<le> b \<le> length t\<close>, as the handler calls them.
\<close>

definition indexOfFrom :: "string \<Rightarrow> string \<Rightarrow> nat \<Rightarrow> nat option" where
  "indexOfFrom t needle from = map_option (\<lambda>i. i + from) (indexOf (drop from t) needle)"

definition lastIndexOf :: "string \<Rightarrow> string \<Rightarrow> nat option" where
  "lastIndexOf t needle =
     map_option (\<lambda>j. length t - j - length needle) (indexOf (rev t) (rev needle))"

definition slice :: "string \<Rightarrow> nat \<Rightarrow> nat \<Rightarrow> string" where
  "slice t a b = take (b - a) (drop a t)"

text \<open>\<^verbatim>\<open>inner.replace(/^json\s*/, '')\<close>\<close>

definition strip_json_tag :: "string \<Rightarrow> string" where
  "strip_json_tag s = (if prefix ''json'' s then dropWhile isSpace (drop 4 s) else s)"

text \<open>\<^verbatim>\<open>t.replace(/^```(json)?\s*/, '')\<close>\<close>

definition strip_leading_fence :: "string \<Rightarrow> string" where
  "strip_leading_fence s =
     (if prefix FENCE s
      then (let r = drop 3 s in dropWhile isSpace (if prefix ''json'' r then drop 4 r else r))
      else s)"

text \<open>
  \<^verbatim>\<open>s.replace(/\s*```$/, '')\<close>: without the \<^verbatim>\<open>m\<close> flag \<^verbatim>\<open>$\<close> is the end of the text,
  and the leftmost match takes all the white space before the closing fence.
\<close>

definition strip_trailing_fence :: "string \<Rightarrow> string" where
  "strip_trailing_fence s =
     (if suffix FENCE s then rev (dropWhile isSpace (drop 3 (rev s))) else s)"

text \<open>The list \<^verbatim>\<open>candidates\<close>, in the order of the pushes.\<close>

definition fence_candidates :: "string \<Rightarrow> string list" where
  "fence_candidates t =
     (case indexOf t FENCE of
        None \<Rightarrow> []
      | Some fenceStart \<Rightarrow>
          (case indexOfFrom t FENCE (fenceStart + 3) of
             Some fenceEnd \<Rightarrow> [trim (strip_json_tag (trim (slice t (fenceStart + 3) fenceEnd)))]
           | None \<Rightarrow> [trim (strip_trailing_fence (strip_leading_fence t))]))"

definition span_candidates :: "string \<Rightarrow> string \<Rightarrow> string \<Rightarrow> string list" where
  "span_candidates t opening closing =
     (case (indexOf t opening, lastIndexOf t closing) of
        (Some start, Some end) \<Rightarrow> if end > start then [slice t start (end + 1)] else []
      | _ \<Rightarrow> [])"

definition candidates :: "string \<Rightarrow> string list" where
  "candidates t =
     fence_candidates t @ [t] @ span_candidates t ''['' '']'' @ span_candidates t ''{'' ''}''"

text \<open>
  The loop over the candidates: an empty candidate is passed over, the others are given to
  \<^verbatim>\<open>JSON.parse\<close> until one parses. \<open>None\<close> stands for \<^verbatim>\<open>ok\<close> staying false.
\<close>

fun first_parsed :: "(string \<Rightarrow> json option) \<Rightarrow> string list \<Rightarrow> json option" where
  "first_parsed JSON_parse [] = None"
| "first_parsed JSON_parse (c # cs) =
     (if c = [] then first_parsed JSON_parse cs
      else (case JSON_parse c of
              Some parsed \<Rightarrow> Some parsed
            | None \<Rightarrow> first_parsed JSON_parse cs))"

text \<open>The three cases that give \<^verbatim>\<open>data\<close> from \<^verbatim>\<open>parsed\<close>.\<close>

definition coerce :: "json \<Rightarrow> json" where
  "coerce parsed =
     (if isArray (Some parsed)
      then JObject [(''status'', JString ''COMPLETED''), (''code_changes'', parsed)]
      else if truthy (Some parsed) \<and> \<not> truthy (get_prop parsed ''status'')
              \<and> isArray (get_prop parsed ''code_changes'')
      then (case parsed of
              JObject ps \<Rightarrow> JObject (set_prop ''status'' (JString ''COMPLETED'') ps)
            | _ \<Rightarrow> parsed)
      else parsed)"

text \<open>
  The \<^verbatim>\<open>try\<close> block of \<^verbatim>\<open>handleAIResponse\<close>: \<open>None\<close> when it throws, which is the
  \<^verbatim>\<open>throw new Error('parse')\<close> after a list of candidates none of which parses.
\<close>

definition parseResponse :: "(string \<Rightarrow> json option) \<Rightarrow> string \<Rightarrow> json option" where
  "parseResponse JSON_parse jsonText =
     (let t = normalizeJsonLikeResponse (trim jsonText)
      in map_option coerce (first_parsed JSON_parse (candidates t)))"


section \<open>The state the handler works on\<close>

text \<open>
  What a path of the workspace holds on disk. The map \<open>workspace\<close> below is keyed by the
  project-relative path \<open>p\<close> and stands for \<^verbatim>\<open>path.join(workspaceRoot, p)\<close>.
\<close>

datatype node = File string | Directory

text \<open>
  The text of the prompt: \<^verbatim>\<open>generateSystemPrompt(goal, files)\<close>, which uses the goal
  only, and the fixed text shown after changes were applied.
\<close>

datatype prompt = NoPrompt | SystemPrompt string | ReviewPrompt

text \<open>
  The module variables \<^verbatim>\<open>currentRound\<close>, \<^verbatim>\<open>currentRoundDir\<close> and
  \<^verbatim>\<open>lastSystemPrompt\<close>; the web view of \<^verbatim>\<open>currentPanel\<close> when there is a panel; the
  files of the workspace; the staging directories under \<^verbatim>\<open>currentStagingRoot\<close>, by
  round number and file name; and the notifications shown so far. A round directory is
  named by its number: \<open>Some n\<close> is \<^verbatim>\<open>round_n\<close>, \<open>None\<close> the empty string.
\<close>

record world =
  currentRound :: nat
  currentRoundDir :: "nat option"
  lastSystemPrompt :: prompt
  panel :: "(prompt \<times> nat) option"
  workspace :: "string \<Rightarrow> node option"
  staging :: "nat \<Rightarrow> string \<Rightarrow> string option"
  notices :: "notice list"

text \<open>An entry of the \<^verbatim>\<open>WorkspaceEdit\<close>: the whole text replaced, or the file created.\<close>

datatype file_edit = ReplaceAll string string | CreateWith string string

text \<open>
  The collaborators the handler calls: \<^verbatim>\<open>JSON.parse\<close> (\<open>None\<close> when it throws);
  whether \<^verbatim>\<open>fs.mkdirSync\<close> or \<^verbatim>\<open>openTextDocument\<close> throws for a path for a reason the
  workspace map does not show; and \<^verbatim>\<open>vscode.workspace.applyEdit\<close>, which gives its
  success flag and the workspace afterwards.
\<close>

record env =
  JSON_parse :: "string \<Rightarrow> json option"
  prepare_throws :: "string \<Rightarrow> bool"
  applyEdit :: "file_edit list \<Rightarrow> (string \<Rightarrow> node option) \<Rightarrow> bool \<times> (string \<Rightarrow> node option)"

datatype action = ERROR | COMPLETED | NEED_CONTEXT | UNKNOWN

text \<open>
  How a call ends: it returns an action, or a \<^verbatim>\<open>TypeError\<close> leaves the handler. A
  response whose selected changes have a \<^verbatim>\<open>file_path\<close> or \<^verbatim>\<open>content\<close> that is not a
  string is outside the embedding.
\<close>

datatype outcome = Returned action | Threw | NotEmbedded

definition STRUCTURE_FILE :: string where "STRUCTURE_FILE = ''_PROJECT_STRUCTURE.txt''"

text \<open>\<^verbatim>\<open>fp.split('/').join('__') + '.txt'\<close>\<close>

definition flatName :: "string \<Rightarrow> string" where
  "flatName fp = concat (map (\<lambda>c. if c = CHR ''/'' then ''__'' else [c]) fp) @ ''.txt''"

definition notify :: "notice \<Rightarrow> world \<Rightarrow> world" where
  "notify n w = w\<lparr>notices := notices w @ [n]\<rparr>"

section \<open>The COMPLETED branch\<close>

text \<open>\<^verbatim>\<open>change.type === 'FULL_REWRITE' || change.type === 'DIFF' || change.type === 'PATCH'\<close>\<close>

definition selected :: "json \<Rightarrow> bool" where
  "selected c = (get_prop c ''type'' \<in> set [Some (JString ''FULL_REWRITE''),
                                              Some (JString ''DIFF''), Some (JString ''PATCH'')])"

definition as_change :: "json \<Rightarrow> change option" where
  "as_change c =
     (case (get_prop c ''file_path'', get_prop c ''type'', get_prop c ''content'') of
        (Some (JString f), Some (JString t), Some (JString x)) \<Rightarrow>
          Some \<lparr>file_path = f, type = t, content = x\<rparr>
      | _ \<Rightarrow> None)"

text \<open>
  \<^verbatim>\<open>changesByFile\<close>, a \<^verbatim>\<open>Map\<close>: the keys in the order they were first set, each
  with its changes in the order of the response.
\<close>

fun addChange :: "(string \<times> change list) list \<Rightarrow> change \<Rightarrow> (string \<times> change list) list" where
  "addChange [] c = [(file_path c, [c])]"
| "addChange ((k, arr) # m) c =
     (if k = file_path c then (k, arr @ [c]) # m else (k, arr) # addChange m c)"

definition changesByFile :: "change list \<Rightarrow> (string \<times> change list) list" where
  "changesByFile cs = foldl addChange [] cs"

text \<open>
  The \<^verbatim>\<open>try\<close> block for one file: the entry for the \<^verbatim>\<open>WorkspaceEdit\<close> and the
  warnings raised on the way, or \<open>None\<close> when \<^verbatim>\<open>mkdirSync\<close> or \<^verbatim>\<open>openTextDocument\<close>
  throws. A file that is not on disk starts from the empty text. The directories
  \<^verbatim>\<open>mkdirSync\<close> makes are not entries of the workspace map.
\<close>

definition prepareFile ::
  "env \<Rightarrow> (string \<Rightarrow> node option) \<Rightarrow> string \<Rightarrow> change list \<Rightarrow> (file_edit \<times> notice list) option" where
  "prepareFile e ws filePath changes =
     (if prepare_throws e filePath then None
      else (case ws filePath of
              Some Directory \<Rightarrow> None
            | Some (File text) \<Rightarrow>
                (let (workingContent, raised) = foldl applyChange (text, []) changes
                 in Some (ReplaceAll filePath workingContent, raised))
            | None \<Rightarrow>
                (let (workingContent, raised) = foldl applyChange ([], []) changes
                 in Some (CreateWith filePath workingContent, raised))))"

text \<open>
  The loop over \<^verbatim>\<open>changesByFile.entries()\<close>: the edit, \<^verbatim>\<open>appliedCount\<close> and the
  notifications, before and after one file.
\<close>

definition prepareStep ::
  "env \<Rightarrow> (string \<Rightarrow> node option) \<Rightarrow> file_edit list \<times> nat \<times> notice list
     \<Rightarrow> string \<times> change list \<Rightarrow> file_edit list \<times> nat \<times> notice list" where
  "prepareStep e ws acc entry =
     (let (edit, appliedCount, raised) = acc; (filePath, changes) = entry
      in case prepareFile e ws filePath changes of
           Some (fe, warned) \<Rightarrow> (edit @ [fe], appliedCount + 1, raised @ warned)
         | None \<Rightarrow> (edit, appliedCount, raised @ [FailedToPrepare filePath]))"

definition prepareAll ::
  "env \<Rightarrow> (string \<Rightarrow> node option) \<Rightarrow> (string \<times> change list) list
     \<Rightarrow> file_edit list \<times> nat \<times> notice list" where
  "prepareAll e ws byFile = foldl (prepareStep e ws) ([], 0, []) byFile"

text \<open>
  The copies of the snapshot, from the current file on: the round directory, and whether
  the loop came to its end; copying a directory throws.
\<close>

fun snapshotFiles ::
  "(string \<Rightarrow> node option) \<Rightarrow> string list \<Rightarrow> (string \<Rightarrow> string option)
     \<Rightarrow> bool \<times> (string \<Rightarrow> string option)" where
  "snapshotFiles ws [] dir = (True, dir)"
| "snapshotFiles ws (fp # fps) dir =
     (case ws fp of
        None \<Rightarrow> snapshotFiles ws fps dir
      | Some (File text) \<Rightarrow> snapshotFiles ws fps (dir(flatName fp \<mapsto> text))
      | Some Directory \<Rightarrow> (False, dir))"

text \<open>
  The \<^verbatim>\<open>try\<close> block after a successful \<^verbatim>\<open>applyEdit\<close>; its \<^verbatim>\<open>catch\<close> is empty, so
  a throw in the loop keeps what was done before it.
\<close>

definition snapshotRound :: "string list \<Rightarrow> world \<Rightarrow> world" where
  "snapshotRound modifiedFiles w =
     (let n = currentRound w + 1;
          (finished, dir) = snapshotFiles (workspace w) modifiedFiles (staging w n);
          w1 = w\<lparr>currentRound := n, staging := (staging w)(n := dir)\<rparr>
      in if finished
         then w1\<lparr>currentRoundDir := Some n, lastSystemPrompt := ReviewPrompt,
                 panel := map_option (\<lambda>_. (ReviewPrompt, n)) (panel w)\<rparr>
         else w1)"

definition completedBranch :: "env \<Rightarrow> json \<Rightarrow> world \<Rightarrow> outcome \<times> world" where
  "completedBranch e data w =
     (case get_prop data ''code_changes'' of
        Some (JArray entries) \<Rightarrow>
          if JNull \<in> set entries then (Threw, w)
          else if \<exists>c\<in>set entries. selected c \<and> as_change c = None then (NotEmbedded, w)
          else
            (let byFile = changesByFile (List.map_filter as_change (filter selected entries));
                 (edit, appliedCount, raised) = prepareAll e (workspace w) byFile;
                 w1 = w\<lparr>notices := notices w @ raised\<rparr>
             in if appliedCount > 0
                then (let (success, ws) = applyEdit e edit (workspace w1);
                          w2 = w1\<lparr>workspace := ws\<rparr>
                      in if success
                         then (Returned COMPLETED,
                               snapshotRound (map fst byFile) (notify (AppliedChanges appliedCount) w2))
                         else (Returned COMPLETED, notify FailedToApply w2))
                else (Returned COMPLETED, notify NoCodeChanges w1))
      | _ \<Rightarrow> (Returned COMPLETED, notify NoCodeChanges w))"

section \<open>The NEED\_CONTEXT branch\<close>

text \<open>
  The loop over \<^verbatim>\<open>data.request_files\<close>, from the current entry on, with the round
  directory and \<^verbatim>\<open>stagedFiles\<close>: whether the loop came to its end, and both afterwards.
  \<^verbatim>\<open>path.join\<close> throws on an entry that is not a string, \<^verbatim>\<open>copyFileSync\<close> on a
  directory.
\<close>

fun stageRequested ::
  "(string \<Rightarrow> node option) \<Rightarrow> json list \<Rightarrow> (string \<Rightarrow> string option) \<Rightarrow> string list
     \<Rightarrow> bool \<times> (string \<Rightarrow> string option) \<times> string list" where
  "stageRequested ws [] dir stagedFiles = (True, dir, stagedFiles)"
| "stageRequested ws (JString reqFile # rs) dir stagedFiles =
     (case ws reqFile of
        None \<Rightarrow> stageRequested ws rs dir stagedFiles
      | Some (File text) \<Rightarrow>
          stageRequested ws rs (dir(flatName reqFile \<mapsto> text)) (stagedFiles @ [reqFile])
      | Some Directory \<Rightarrow> (False, dir, stagedFiles))"
| "stageRequested ws (r # rs) dir stagedFiles = (False, dir, stagedFiles)"

text \<open>
  The new round of the branch: its number, its directory, \<^verbatim>\<open>stagedFiles\<close>, and whether
  the request loop came to its end. The structure listing is looked for in \<^verbatim>\<open>round_1\<close>.
\<close>

definition provisionRound ::
  "json \<Rightarrow> world \<Rightarrow> bool \<times> nat \<times> (string \<Rightarrow> string option) \<times> string list" where
  "provisionRound data w =
     (let n = currentRound w + 1;
          roundDir = staging w n;
          (dir1, staged1) =
             (case staging w 1 STRUCTURE_FILE of
                Some listing \<Rightarrow> (roundDir(STRUCTURE_FILE \<mapsto> listing), [STRUCTURE_FILE])
              | None \<Rightarrow> (roundDir, []));
          requested = (case get_prop data ''request_files'' of
                         Some (JArray rs) \<Rightarrow> rs
                       | _ \<Rightarrow> []);
          (finished, dir2, staged2) = stageRequested (workspace w) requested dir1 staged1
      in (finished, n, dir2, staged2))"

definition needContextBranch :: "string \<Rightarrow> json \<Rightarrow> world \<Rightarrow> outcome \<times> world" where
  "needContextBranch goal data w =
     (let (finished, n, dir, stagedFiles) = provisionRound data w;
          w1 = w\<lparr>currentRound := n, currentRoundDir := Some n,
                 staging := (staging w)(n := dir)\<rparr>
      in if finished
         then (Returned NEED_CONTEXT,
               notify (RoundPrepared n (length stagedFiles))
                 (w1\<lparr>lastSystemPrompt := SystemPrompt goal,
                      panel := map_option (\<lambda>_. (SystemPrompt goal, n)) (panel w)\<rparr>))
         else (Threw, w1))"

section \<open>handleAIResponse\<close>

definition handleData :: "env \<Rightarrow> string \<Rightarrow> json \<Rightarrow> world \<Rightarrow> outcome \<times> world" where
  "handleData e goal data w =
     (if data = JNull then (Threw, w)
      else if get_prop data ''status'' = Some (JString ''COMPLETED'') then completedBranch e data w
      else if get_prop data ''status'' = Some (JString ''NEED_CONTEXT'')
        then needContextBranch goal data w
      else (Returned UNKNOWN, notify MissingStatus w))"

definition handleAIResponse :: "env \<Rightarrow> string \<Rightarrow> string \<Rightarrow> world \<Rightarrow> outcome \<times> world" where
  "handleAIResponse e jsonText goal w =
     (case parseResponse (JSON_parse e) jsonText of
        None \<Rightarrow> (Returned ERROR, notify InvalidJson w)
      | Some data \<Rightarrow> handleData e goal data w)"

section \<open>A task to run the handler on\<close>

text \<open>A task after \<^verbatim>\<open>stageWorkspace\<close>: round 1 holds the structure listing and one file.\<close>

definition start_world :: world where
  "start_world =
     \<lparr>currentRound = 1, currentRoundDir = Some 1, lastSystemPrompt = SystemPrompt ''goal'',
      panel = Some (SystemPrompt ''goal'', 1),
      workspace = [''src/a.ts'' \<mapsto> File ''old''],
      staging = (\<lambda>n. if n = 1 then [STRUCTURE_FILE \<mapsto> ''tree'', ''src__a.ts.txt'' \<mapsto> ''old'']
                      else Map.empty),
      notices = []\<rparr>"

text \<open>An editor that applies every edit and saves it.\<close>

fun write_edit :: "file_edit \<Rightarrow> (string \<Rightarrow> node option) \<Rightarrow> (string \<Rightarrow> node option)" where
  "write_edit (ReplaceAll f t) ws = ws(f \<mapsto> File t)"
| "write_edit (CreateWith f t) ws = ws(f \<mapsto> File t)"

definition saving_editor :: env where
  "saving_editor =
     \<lparr>JSON_parse = (\<lambda>s. None), prepare_throws = (\<lambda>p. False),
      applyEdit = (\<lambda>edit ws. (True, fold write_edit edit ws))\<rparr>"

definition rewrite_response :: json where
  "rewrite_response =
     JObject [(''status'', JString ''COMPLETED''),
              (''code_changes'', JArray [JObject [(''file_path'', JString ''src/a.ts''),
                                                  (''type'', JString ''FULL_REWRITE''),
                                                  (''content'', JString ''new'')]])]"

definition request_response :: json where
  "request_response =
     JObject [(''status'', JString ''NEED_CONTEXT''),
              (''request_files'', JArray [JString ''src/a.ts'', JString ''src/missing.ts''])]"

definition after_rewrite :: world where
  "after_rewrite = snd (handleData saving_editor ''goal'' rewrite_response start_world)"



definition other_file_patch :: string where
  "other_file_patch = join_nl [''*** Begin Patch'', ''*** Update File: src/b.ts'', ''@@'',
                               ''-old'', ''+new'', ''*** End Patch'']"

text \<open>The task state apart from the notifications.\<close>

definition same_task_state :: "world \<Rightarrow> world \<Rightarrow> bool" where
  "same_task_state w w' =
     (currentRound w' = currentRound w \<and> currentRoundDir w' = currentRoundDir w
      \<and> lastSystemPrompt w' = lastSystemPrompt w \<and> panel w' = panel w
      \<and> workspace w' = workspace w \<and> staging w' = staging w)"

text \<open>The bare array of the specification, parsed, and a response with the status DONE.\<close>

definition bare_array :: json where
  "bare_array = JArray [JObject [(''file_path'', JString ''a.ts''),
                                 (''type'', JString ''FULL_REWRITE''),
                                 (''content'', JString ''x'')]]"

definition done_text :: string where
  "done_text = ''{'' @ [DQ] @ ''status'' @ [DQ] @ '':'' @ [DQ] @ ''DONE'' @ [DQ] @ ''}''"

definition done_value :: json where
  "done_value = JObject [(''status'', JString ''DONE'')]"

text \<open>A parser that knows three texts, for running the handler on them.\<close>

definition toy_parse :: "string \<Rightarrow> json option" where
  "toy_parse s =
     (if s = done_text then Some done_value
      else if s = ''null'' then Some JNull
      else if s = ''[1]'' then Some (JArray [JNumber 1])
      else None)"

definition toy_env :: env where
  "toy_env = saving_editor\<lparr>JSON_parse := toy_parse\<rparr>"

text \<open>
  A response whose \<^verbatim>\<open>content\<close> field holds a diff as a properly escaped JSON string:
  the line ends are the two characters backslash and n.
\<close>

definition escaped_nl :: string where "escaped_nl = [BS, CHR ''n'']"

definition escaped_field :: string where
  "escaped_field = CONTENT_KEY @ '': '' @ [DQ] @ ''<<<<<<< SEARCH'' @ escaped_nl @ ''line2''
     @ escaped_nl @ ''======='' @ escaped_nl @ ''CHANGED'' @ escaped_nl @ ''>>>>>>> REPLACE'' @ [DQ]"

definition twice_escaped_nl :: string where "twice_escaped_nl = [BS, BS, CHR ''n'']"

definition fenced_text :: string where
  "fenced_text = FENCE @ ''json'' @ [LF] @ ''[1]'' @ [LF] @ FENCE"

text \<open>The requested paths that are on disk, in the order of the request.\<close>

definition existing :: "(string \<Rightarrow> node option) \<Rightarrow> string list \<Rightarrow> string list" where
  "existing ws reqs = filter (\<lambda>p. ws p \<noteq> None) reqs"

text \<open>\<^verbatim>\<open>stagedFiles\<close> of the new round.\<close>

definition stagedFiles_of :: "json \<Rightarrow> world \<Rightarrow> string list" where
  "stagedFiles_of data w = snd (snd (snd (provisionRound data w)))"

definition after_request :: world where
  "after_request = snd (handleData saving_editor ''goal'' request_response after_rewrite)"

definition open_fence_text :: string where
  "open_fence_text = FENCE @ ''json'' @ [LF] @ ''[1]''"

text \<open>
  A diff whose first block has no closing marker, followed by a complete block.
\<close>

definition swallowing_diff :: string where
  "swallowing_diff = join_nl [''<<<<<<< SEARCH'', ''a'', ''======='', ''b'',
                              ''<<<<<<< SEARCH'', ''c'', ''======='', ''d'', ''>>>>>>> REPLACE'']"

text \<open>A fenced block without a language tag.\<close>

definition untagged_fence_text :: string where
  "untagged_fence_text = FENCE @ [LF] @ ''[1]'' @ [LF] @ FENCE"

text \<open>
  A bare array with one FULL\_REWRITE change as JSON text, the value it parses to, a
  parser that knows this text, and the text inside a tagged fence.
\<close>

definition quoted :: "string \<Rightarrow> string" where
  "quoted s = [DQ] @ s @ [DQ]"

definition rewrite_text :: string where
  "rewrite_text = ''[{'' @ quoted ''file_path'' @ '':'' @ quoted ''src/a.ts'' @ '',''
     @ quoted ''type'' @ '':'' @ quoted ''FULL_REWRITE'' @ '',''
     @ quoted ''content'' @ '':'' @ quoted ''new'' @ ''}]''"

definition rewrite_array :: json where
  "rewrite_array = JArray [JObject [(''file_path'', JString ''src/a.ts''),
                                    (''type'', JString ''FULL_REWRITE''),
                                    (''content'', JString ''new'')]]"

definition edit_parse :: "string \<Rightarrow> json option" where
  "edit_parse s = (if s = rewrite_text then Some rewrite_array else None)"

definition edit_env :: env where
  "edit_env = saving_editor\<lparr>JSON_parse := edit_parse\<rparr>"

definition fenced_rewrite_text :: string where
  "fenced_rewrite_text = FENCE @ ''json'' @ [LF] @ rewrite_text @ [LF] @ FENCE"

section \<open>Facts about the matcher and the loop\<close>




lemma lazy_group_first:
  "k t = Some r \<Longrightarrow> \<forall>j<length g. k (drop j (g @ t)) = None \<Longrightarrow> lazy_group k (g @ t) = Some (g, r)"
proof (induction g)
  case Nil
  then show ?case by (cases t) auto
next
  case (Cons c g)
  from Cons.prems(2) have 0: "k (c # g @ t) = None" by force
  have "\<forall>j<length g. k (drop j (g @ t)) = None"
  proof (intro allI impI)
    fix j assume "j < length g"
    then have "Suc j < length (c # g)" by simp
    with Cons.prems(2) have "k (drop (Suc j) ((c # g) @ t)) = None" by blast
    then show "k (drop j (g @ t)) = None" by simp
  qed
  with Cons.IH[OF Cons.prems(1)] 0 show ?case by simp
qed

lemma lazy_group_None:
  "lazy_group k s = None \<longleftrightarrow> (\<forall>j\<le>length s. k (drop j s) = None)"
proof (induction s)
  case Nil
  then show ?case by auto
next
  case (Cons c cs)
  show ?case
  proof (cases "k (c # cs)")
    case (Some x)
    then show ?thesis by force
  next
    case None
    have "(\<forall>j\<le>length (c # cs). k (drop j (c # cs)) = None) \<longleftrightarrow> (\<forall>j\<le>length cs. k (drop j cs) = None)"
    proof
      assume a: "\<forall>j\<le>length (c # cs). k (drop j (c # cs)) = None"
      show "\<forall>j\<le>length cs. k (drop j cs) = None"
      proof (intro allI impI)
        fix j assume "j \<le> length cs"
        then have "Suc j \<le> length (c # cs)" by simp
        with a have "k (drop (Suc j) (c # cs)) = None" by blast
        then show "k (drop j cs) = None" by simp
      qed
    next
      assume a: "\<forall>j\<le>length cs. k (drop j cs) = None"
      show "\<forall>j\<le>length (c # cs). k (drop j (c # cs)) = None"
      proof (intro allI impI)
        fix j assume "j \<le> length (c # cs)"
        then show "k (drop j (c # cs)) = None" using None a by (cases j) auto
      qed
    qed
    with None Cons.IH show ?thesis by simp
  qed
qed

lemma indexOf_Some:
  "indexOf h n = Some i \<Longrightarrow>
     h = take i h @ n @ drop (i + length n) h \<and> i + length n \<le> length h
     \<and> (\<forall>j<i. \<not> prefix n (drop j h))"
proof (induction h arbitrary: i)
  case Nil
  then show ?case by (auto split: if_splits)
next
  case (Cons c cs)
  show ?case
  proof (cases "prefix n (c # cs)")
    case True
    with Cons.prems have "i = 0" by simp
    with True prefix_length_le[OF True] show ?thesis by (auto simp: prefix_def)
  next
    case False
    with Cons.prems obtain i' where i: "i = Suc i'" and l: "indexOf cs n = Some i'" by auto
    from Cons.IH[OF l] have a: "cs = take i' cs @ n @ drop (i' + length n) cs"
      and b: "i' + length n \<le> length cs" and m: "\<forall>j<i'. \<not> prefix n (drop j cs)" by auto
    have "\<forall>j<i. \<not> prefix n (drop j (c # cs))"
    proof (intro allI impI)
      fix j assume "j < i"
      then show "\<not> prefix n (drop j (c # cs))" using False m i by (cases j) auto
    qed
    moreover have "c # cs = take i (c # cs) @ n @ drop (i + length n) (c # cs)"
      using a i by simp
    ultimately show ?thesis using b i by simp
  qed
qed

lemma indexOf_None: "indexOf h n = None \<longleftrightarrow> \<not> sublist n h"
proof (induction h)
  case Nil
  then show ?case by auto
next
  case (Cons c cs)
  then show ?case by (auto simp: sublist_Cons_right)
qed

lemma loop_foldl: "applySearchReplace_loop st diff = foldl applyBlock st (blocks diff)"
proof (induction st diff rule: applySearchReplace_loop.induct)
  case (1 st diff)
  show ?case
  proof (cases "blockRegex_exec diff")
    case None
    then show ?thesis by (simp add: blocks.simps[of diff] applySearchReplace_loop.simps[of st diff])
  next
    case (Some m)
    obtain search replace rest where m: "m = (search, replace, rest)" by (cases m) auto
    from "1.IH"[OF Some[unfolded m] refl refl] Some m show ?thesis
      by (simp add: blocks.simps[of diff] applySearchReplace_loop.simps[of st diff])
  qed
qed









lemma blocks_Some:
  "blockRegex_exec diff = Some (s, r, rest) \<Longrightarrow> blocks diff = (s, r) # blocks rest"
  by (subst blocks.simps) simp

lemma blocks_None: "blockRegex_exec diff = None \<Longrightarrow> blocks diff = []"
  by (subst blocks.simps) simp












section \<open>Facts about the patch envelope\<close>

lemma pushBlock_hunk_text:
  "pushBlock collects (map hunk_text hs)
     = map hunk_text (if collects \<noteq> [] then hs @ [collects] else hs)"
  by (simp add: pushBlock_def hunk_text_def Let_def split: prod.splits)

lemma patch_loop_hunk_loop:
  "patch_loop tf inU col (map hunk_text hs) ls
     = map_prod id (map hunk_text) (hunk_loop tf inU col hs ls)"
proof (induction ls arbitrary: inU col hs)
  case Nil
  then show ?case by simp
next
  case (Cons l ls)
  show ?case
    by (simp add: pushBlock_hunk_text Cons.IH del: map_append)
qed

lemma patchEnvelopeToDiffForFile_hunks:
  "patchEnvelopeToDiffForFile patch tf = join_nl (map hunk_text (patch_hunks patch tf))"
proof -
  obtain c hs where h: "hunk_loop tf False [] [] (split_lines patch) = (c, hs)"
    by (cases "hunk_loop tf False [] [] (split_lines patch)") auto
  from patch_loop_hunk_loop[of tf False "[]" "[]" "split_lines patch"] h
  have "patch_loop tf False [] [] (split_lines patch) = (c, map hunk_text hs)" by simp
  with h show ?thesis
    by (simp add: patchEnvelopeToDiffForFile_def patch_hunks_def pushBlock_hunk_text
             del: map_append)
qed

lemma split_lines_not_Nil: "split_lines s \<noteq> []"
  by (induction s rule: split_lines.induct) (auto split: list.splits)

lemma split_lines_no_LF: "l \<in> set (split_lines s) \<Longrightarrow> LF \<notin> set l"
proof (induction s arbitrary: l rule: split_lines.induct)
  case 1
  then show ?case by simp
next
  case (2 c)
  then show ?case by (auto split: if_splits)
next
  case (3 c d r)
  show ?case
  proof (cases "c = CR \<and> d = LF")
    case True
    with 3 show ?thesis by auto
  next
    case False
    show ?thesis
    proof (cases "c = LF")
      case True
      with False 3 show ?thesis by auto
    next
      case nl: False
      obtain m ms where ms: "split_lines (d # r) = m # ms"
        using split_lines_not_Nil[of "d # r"] by (cases "split_lines (d # r)") auto
      with False nl "3.prems" have "l = c # m \<or> l \<in> set ms" by auto
      then show ?thesis
      proof
        assume "l = c # m"
        moreover have "LF \<notin> set m" using "3.IH"(3)[OF False nl, of m] ms by simp
        ultimately show ?thesis using nl by auto
      next
        assume "l \<in> set ms"
        then show ?thesis using "3.IH"(3)[OF False nl, of l] ms by simp
      qed
    qed
  qed
qed

lemma hunk_loop_lines:
  "hunk_loop tf inU col hs ls = (c', hs') \<Longrightarrow>
     set c' \<union> \<Union> (set ` set hs') \<subseteq> set col \<union> \<Union> (set ` set hs) \<union> set ls"
proof (induction ls arbitrary: inU col hs)
  case Nil
  then show ?case by auto
next
  case (Cons l ls)
  show ?case
    using Cons.prems Cons.IH[of _ col hs] Cons.IH[of inU "[]" "hs @ [col]"]
          Cons.IH[of inU "[]" hs] Cons.IH[of inU "col @ [l]" hs]
    by (auto split: if_splits)
qed

lemma hunk_loop_nonempty:
  "hunk_loop tf inU col hs ls = (c', hs') \<Longrightarrow> [] \<notin> set hs \<Longrightarrow> [] \<notin> set hs'"
proof (induction ls arbitrary: inU col hs)
  case Nil
  then show ?case by auto
next
  case (Cons l ls)
  show ?case
    using Cons.prems Cons.IH[of _ col hs] Cons.IH[of inU "[]" "hs @ [col]"]
          Cons.IH[of inU "[]" hs] Cons.IH[of inU "col @ [l]" hs]
    by (auto split: if_splits)
qed

lemma patch_hunks_lines:
  assumes "h \<in> set (patch_hunks patch tf)"
  shows "h \<noteq> [] \<and> (\<forall>l\<in>set h. LF \<notin> set l)"
proof -
  obtain c hs where hl: "hunk_loop tf False [] [] (split_lines patch) = (c, hs)"
    by (cases "hunk_loop tf False [] [] (split_lines patch)") auto
  from hunk_loop_lines[OF hl] have sub: "set c \<union> \<Union> (set ` set hs) \<subseteq> set (split_lines patch)"
    by simp
  from hunk_loop_nonempty[OF hl] have ne: "[] \<notin> set hs" by simp
  from assms hl have "h \<in> set hs \<or> (h = c \<and> c \<noteq> [])"
    by (auto simp: patch_hunks_def split: if_splits)
  then show ?thesis
  proof
    assume "h \<in> set hs"
    with ne sub show ?thesis by (auto dest: split_lines_no_LF)
  next
    assume "h = c \<and> c \<noteq> []"
    with sub show ?thesis by (auto dest: split_lines_no_LF)
  qed
qed

lemma split_nl_no_LF: "LF \<notin> set l \<Longrightarrow> split_nl (l @ LF # r) = l # split_nl r"
  by (induction l) auto

lemma split_nl_no_LF_last: "LF \<notin> set l \<Longrightarrow> split_nl l = [l]"
  by (induction l) auto

lemma split_nl_join_nl:
  "h \<noteq> [] \<Longrightarrow> \<forall>l\<in>set h. LF \<notin> set l \<Longrightarrow> split_nl (join_nl h) = h"
proof (induction h rule: join_nl.induct)
  case 1
  then show ?case by simp
next
  case (2 l)
  then show ?case by (simp add: split_nl_no_LF_last)
next
  case (3 l m ls)
  then show ?case by (simp add: split_nl_no_LF)
qed

lemma eol_plain: "c \<noteq> CR \<Longrightarrow> c \<noteq> LF \<Longrightarrow> eol (c # t) = None"
  by (cases t) auto

lemma lazy_group_skip_line:
  assumes k: "\<And>t. eol t = None \<Longrightarrow> k t = None"
  shows "plain_line l \<Longrightarrow>
     lazy_group k (l @ t) = map_option (\<lambda>(g, r). (l @ g, r)) (lazy_group k t)"
proof (induction l)
  case Nil
  then show ?case by (simp add: option.map_ident split_def)
next
  case (Cons c l)
  then have c: "c \<noteq> CR" "c \<noteq> LF" and l: "plain_line l" by (auto simp: plain_line_def)
  have "k (c # l @ t) = None" by (rule k) (simp add: eol_plain c)
  with Cons.IH[OF l] show ?case
    by (simp add: option.map_comp comp_def split_def)
qed

lemma replace_tail_needs_eol: "eol t = None \<Longrightarrow> replace_tail t = None"
  by (simp add: replace_tail_def)

lemma separator_on_needs_eol: "eol t = None \<Longrightarrow> separator_on t = None"
  by (simp add: separator_on_def)

lemma eol_LF: "eol (LF # t) = Some t"
  by (cases t) auto

lemma prefix_plain_append:
  "LF \<notin> set p \<Longrightarrow> prefix p (m @ LF # z) \<longleftrightarrow> prefix p m"
proof (induction p arbitrary: m)
  case Nil
  then show ?case by simp
next
  case (Cons a p)
  then show ?case by (cases m) auto
qed

lemma REPLACE_MARK_no_LF: "LF \<notin> set REPLACE_MARK"
  by (simp add: REPLACE_MARK_def)

lemma SEP_MARK_no_LF: "LF \<notin> set SEP_MARK"
  by (simp add: SEP_MARK_def)

text \<open>The second capture over the replacement lines of a rendered block.\<close>

lemma replace_tail_at_line:
  "\<not> prefix REPLACE_MARK m \<Longrightarrow> replace_tail (LF # m @ LF # z) = None"
  by (simp add: replace_tail_def eol_LF literal_def prefix_plain_append REPLACE_MARK_no_LF)

lemma replace_tail_at_end: "replace_tail (LF # REPLACE_MARK @ rest) = Some rest"
  by (simp add: replace_tail_def eol_LF literal_def)

lemma lazy_group_replace_lines:
  assumes "\<forall>l\<in>set ps. plain_line l" and "\<forall>l\<in>set (tl ps). \<not> prefix REPLACE_MARK l"
  shows "lazy_group replace_tail (join_nl ps @ LF # REPLACE_MARK @ rest) = Some (join_nl ps, rest)"
  using assms
proof (induction ps rule: join_nl.induct)
  case 1
  then show ?case by (simp add: replace_tail_at_end)
next
  case (2 l)
  then show ?case
    by (simp add: lazy_group_skip_line[OF replace_tail_needs_eol] replace_tail_at_end)
next
  case (3 l m ls)
  from "3.prems" have l: "plain_line l" and m: "\<not> prefix REPLACE_MARK m"
    and ih1: "\<forall>l\<in>set (m # ls). plain_line l" and ih2: "\<forall>l\<in>set (tl (m # ls)). \<not> prefix REPLACE_MARK l"
    by auto
  have "\<exists>z. join_nl (m # ls) @ LF # REPLACE_MARK @ rest = m @ LF # z"
    by (cases ls) auto
  then obtain z where z: "join_nl (m # ls) @ LF # REPLACE_MARK @ rest = m @ LF # z" by blast
  have none: "replace_tail (LF # join_nl (m # ls) @ LF # REPLACE_MARK @ rest) = None"
    unfolding z by (rule replace_tail_at_line[OF m])
  have "lazy_group replace_tail (join_nl (l # m # ls) @ LF # REPLACE_MARK @ rest)
          = map_option (\<lambda>(g, r). (l @ g, r))
              (lazy_group replace_tail (LF # join_nl (m # ls) @ LF # REPLACE_MARK @ rest))"
    using lazy_group_skip_line[OF replace_tail_needs_eol l,
            where t = "LF # join_nl (m # ls) @ LF # REPLACE_MARK @ rest"] by simp
  also have "lazy_group replace_tail (LF # join_nl (m # ls) @ LF # REPLACE_MARK @ rest)
          = Some (LF # join_nl (m # ls), rest)"
    using none "3.IH"[OF ih1 ih2] by simp
  finally show ?case by simp
qed

text \<open>The first capture over the search lines of a rendered block.\<close>

lemma separator_on_at_line:
  assumes "plain_line m" and "m \<noteq> SEP_MARK"
  shows "separator_on (LF # m @ LF # z) = None"
proof (cases "prefix SEP_MARK m")
  case False
  then show ?thesis
    by (simp add: separator_on_def eol_LF literal_def prefix_plain_append SEP_MARK_no_LF)
next
  case True
  then obtain r where r: "m = SEP_MARK @ r" by (auto simp: prefix_def)
  with assms(2) have "r \<noteq> []" by auto
  then obtain c r' where cr: "r = c # r'" by (cases r) auto
  with assms(1) r have "c \<noteq> CR" "c \<noteq> LF" by (auto simp: plain_line_def)
  then have "eol (r @ LF # z) = None" using cr by (simp add: eol_plain)
  then show ?thesis
    by (simp add: separator_on_def eol_LF literal_def r)
qed

lemma separator_on_at_end:
  assumes "lazy_group replace_tail t = Some x"
  shows "separator_on (LF # SEP_MARK @ LF # t) = Some x"
  using assms by (simp add: separator_on_def eol_LF literal_def)

lemma lazy_group_search_lines:
  assumes "\<forall>l\<in>set ss. plain_line l" and "SEP_MARK \<notin> set (tl ss)"
    and "lazy_group replace_tail t = Some x"
  shows "lazy_group separator_on (join_nl ss @ LF # SEP_MARK @ LF # t) = Some (join_nl ss, x)"
  using assms(1,2)
proof (induction ss rule: join_nl.induct)
  case 1
  then show ?case by (simp add: separator_on_at_end[OF assms(3)])
next
  case (2 l)
  then show ?case
    by (simp add: lazy_group_skip_line[OF separator_on_needs_eol]
                  separator_on_at_end[OF assms(3)])
next
  case (3 l m ls)
  from "3.prems" have l: "plain_line l" and m: "plain_line m" "m \<noteq> SEP_MARK"
    and ih1: "\<forall>l\<in>set (m # ls). plain_line l" and ih2: "SEP_MARK \<notin> set (tl (m # ls))"
    by auto
  have "\<exists>z. join_nl (m # ls) @ LF # SEP_MARK @ LF # t = m @ LF # z"
    by (cases ls) auto
  then obtain z where z: "join_nl (m # ls) @ LF # SEP_MARK @ LF # t = m @ LF # z" by blast
  have none: "separator_on (LF # join_nl (m # ls) @ LF # SEP_MARK @ LF # t) = None"
    unfolding z by (rule separator_on_at_line[OF m])
  have "lazy_group separator_on (join_nl (l # m # ls) @ LF # SEP_MARK @ LF # t)
          = map_option (\<lambda>(g, r). (l @ g, r))
              (lazy_group separator_on (LF # join_nl (m # ls) @ LF # SEP_MARK @ LF # t))"
    using lazy_group_skip_line[OF separator_on_needs_eol l,
            where t = "LF # join_nl (m # ls) @ LF # SEP_MARK @ LF # t"] by simp
  also have "lazy_group separator_on (LF # join_nl (m # ls) @ LF # SEP_MARK @ LF # t)
          = Some (LF # join_nl (m # ls), x)"
    using none "3.IH"[OF ih1 ih2] by simp
  finally show ?case by simp
qed

lemma blockRegex_at_render_block:
  assumes "\<forall>l\<in>set ss. plain_line l" and "SEP_MARK \<notin> set (tl ss)"
    and "\<forall>l\<in>set ps. plain_line l" and "\<forall>l\<in>set (tl ps). \<not> prefix REPLACE_MARK l"
  shows "blockRegex_at (render_block ss ps @ rest) = Some (join_nl ss, join_nl ps, rest)"
proof -
  have g: "lazy_group replace_tail (join_nl ps @ LF # REPLACE_MARK @ rest) = Some (join_nl ps, rest)"
    by (rule lazy_group_replace_lines[OF assms(3,4)])
  have "render_block ss ps @ rest
          = SEARCH_MARK @ LF # (join_nl ss @ LF # SEP_MARK @ LF # (join_nl ps @ LF # REPLACE_MARK @ rest))"
    by (simp add: render_block_def)
  then show ?thesis
    using lazy_group_search_lines[OF assms(1,2) g]
    by (simp add: blockRegex_at_def literal_def eol_LF)
qed

lemma blockRegex_exec_at:
  "blockRegex_at s = Some m \<Longrightarrow> blockRegex_exec s = Some m"
  by (cases s) auto

lemma blockRegex_exec_skip_LF: "blockRegex_exec (LF # s) = blockRegex_exec s"
  by (simp add: blockRegex_at_def literal_def SEARCH_MARK_def)

lemma blocks_Nil: "blocks [] = []"
  by (rule blocks_None) (simp add: blockRegex_at_def literal_def SEARCH_MARK_def)

lemma blocks_skip_LF: "blocks (LF # s) = blocks s"
proof (cases "blockRegex_exec s")
  case None
  then have "blockRegex_exec (LF # s) = None" by (simp only: blockRegex_exec_skip_LF)
  with None show ?thesis by (simp only: blocks_None)
next
  case (Some m)
  obtain a b rest where m: "m = (a, b, rest)" by (cases m) auto
  from Some m have "blockRegex_exec (LF # s) = Some (a, b, rest)"
    by (simp only: blockRegex_exec_skip_LF)
  with Some m show ?thesis by (simp only: blocks_Some)
qed

lemma blocks_render_block:
  assumes "renderable (ss, ps)"
  shows "blocks (render_block ss ps @ rest) = (join_nl ss, join_nl ps) # blocks rest"
proof -
  from assms have "blockRegex_at (render_block ss ps @ rest) = Some (join_nl ss, join_nl ps, rest)"
    by (intro blockRegex_at_render_block) (auto simp: renderable_def)
  then have "blockRegex_exec (render_block ss ps @ rest) = Some (join_nl ss, join_nl ps, rest)"
    by (rule blockRegex_exec_at)
  then show ?thesis by (rule blocks_Some)
qed

lemma blocks_join_rendered:
  "\<forall>b\<in>set bs. renderable b \<Longrightarrow>
     blocks (join_nl (map (\<lambda>(ss, ps). render_block ss ps) bs))
       = map (\<lambda>(ss, ps). (join_nl ss, join_nl ps)) bs"
proof (induction bs rule: induct_list012)
  case 1
  then show ?case by (simp add: blocks_Nil)
next
  case (2 b)
  obtain ss ps where b: "b = (ss, ps)" by (cases b) auto
  with 2 have "renderable (ss, ps)" by simp
  from blocks_render_block[OF this, of "[]"] b show ?case by (simp add: blocks_Nil)
next
  case (3 b c bs)
  obtain ss ps where b: "b = (ss, ps)" by (cases b) auto
  with "3.prems" have r: "renderable (ss, ps)" by simp
  from "3.prems" have "\<forall>b\<in>set (c # bs). renderable b" by simp
  from "3.IH"(2)[OF this]
  have ih: "blocks (join_nl (map (\<lambda>(ss, ps). render_block ss ps) (c # bs)))
          = map (\<lambda>(ss, ps). (join_nl ss, join_nl ps)) (c # bs)" .
  have "join_nl (map (\<lambda>(ss, ps). render_block ss ps) (b # c # bs))
          = render_block ss ps @ LF # join_nl (map (\<lambda>(ss, ps). render_block ss ps) (c # bs))"
    using b by simp
  then show ?case
    using blocks_render_block[OF r] ih b by (simp add: blocks_skip_LF)
qed

lemma hunk_lines_subset:
  "set (fst (hunk_lines h)) \<subseteq> drop 1 ` set h \<and> set (snd (hunk_lines h)) \<subseteq> drop 1 ` set h"
  by (induction h) (auto simp: Let_def split: prod.splits)

lemma plain_line_drop: "plain_line l \<Longrightarrow> plain_line (drop n l)"
  by (auto simp: plain_line_def dest: in_set_dropD)

lemma plain_hunk_renderable:
  assumes "plain_hunk h" and "\<forall>l\<in>set h. LF \<notin> set l"
  shows "renderable (hunk_lines h)"
proof -
  from assms have p: "\<forall>l\<in>set h. plain_line l" by (auto simp: plain_hunk_def plain_line_def)
  have d: "\<forall>l\<in>drop 1 ` set h. plain_line l"
    using p by (auto intro: plain_line_drop)
  have "\<forall>l\<in>set (fst (hunk_lines h)). plain_line l"
    using hunk_lines_subset[of h] d by blast
  moreover have "\<forall>l\<in>set (snd (hunk_lines h)). plain_line l"
    using hunk_lines_subset[of h] d by blast
  ultimately show ?thesis using assms(1) by (simp add: renderable_def plain_hunk_def)
qed

lemma hunk_text_plain:
  assumes "h \<noteq> []" and "\<forall>l\<in>set h. LF \<notin> set l"
  shows "hunk_text h = (\<lambda>(ss, ps). render_block ss ps) (hunk_lines h)"
  by (simp add: hunk_text_def split_nl_join_nl[OF assms])

lemma blocks_patchEnvelopeToDiffForFile:
  assumes "\<forall>h\<in>set (patch_hunks patch tf). plain_hunk h"
  shows "blocks (patchEnvelopeToDiffForFile patch tf) = map hunk_block (patch_hunks patch tf)"
proof -
  let ?hs = "patch_hunks patch tf"
  have t: "map hunk_text ?hs = map (\<lambda>(ss, ps). render_block ss ps) (map hunk_lines ?hs)"
    using patch_hunks_lines[of _ patch tf] by (simp add: hunk_text_plain)
  have r: "\<forall>b\<in>set (map hunk_lines ?hs). renderable b"
    using assms patch_hunks_lines[of _ patch tf] by (auto intro: plain_hunk_renderable)
  have "blocks (patchEnvelopeToDiffForFile patch tf)
          = blocks (join_nl (map (\<lambda>(ss, ps). render_block ss ps) (map hunk_lines ?hs)))"
    by (simp only: patchEnvelopeToDiffForFile_hunks t)
  also have "\<dots> = map (\<lambda>(ss, ps). (join_nl ss, join_nl ps)) (map hunk_lines ?hs)"
    by (rule blocks_join_rendered[OF r])
  also have "\<dots> = map hunk_block ?hs"
    by (simp add: hunk_block_def split_def)
  finally show ?thesis .
qed


lemma rename_patch_hunks: "patch_hunks rename_patch ''src/a.ts'' = [['' ctx'', ''-old'', ''+new'']]"
  by code_simp

lemma rename_patch_plain: "\<forall>h\<in>set (patch_hunks rename_patch ''src/a.ts''). plain_hunk h"
  unfolding rename_patch_hunks by code_simp



lemma applySearchReplace_foldl:
  "applySearchReplace original diff = foldl applyBlock (original, []) (blocks diff)"
  by (simp add: applySearchReplace_def loop_foldl)




lemma applySearchReplace_Nil: "applySearchReplace cur [] = (cur, [])"
  by (simp add: applySearchReplace_foldl blocks_Nil)

lemma patch_loop_no_section:
  assumes "\<forall>l\<in>set ls. startsWith l UPDATE_FILE \<longrightarrow> trim (drop (length UPDATE_FILE) l) \<noteq> tf"
  shows "patch_loop tf False col out ls = (col, out)"
  using assms by (induction ls) auto

lemma patchEnvelopeToDiffForFile_no_section:
  assumes "\<forall>l\<in>set (split_lines patch).
             startsWith l UPDATE_FILE \<longrightarrow> trim (drop (length UPDATE_FILE) l) \<noteq> tf"
  shows "patchEnvelopeToDiffForFile patch tf = []"
  by (simp add: patchEnvelopeToDiffForFile_def patch_loop_no_section[OF assms] pushBlock_def)

lemma applyChange_patch_no_section:
  assumes "\<forall>l\<in>set (split_lines patch).
             startsWith l UPDATE_FILE \<longrightarrow> trim (drop (length UPDATE_FILE) l) \<noteq> tf"
  shows "applyChange (cur, ns) \<lparr>file_path = tf, type = ''PATCH'', content = patch\<rparr> = (cur, ns)"
  by (simp add: applyChange_def patchEnvelopeToDiffForFile_no_section[OF assms]
                applySearchReplace_Nil)

lemma other_file_patch_no_section:
  "\<forall>l\<in>set (split_lines other_file_patch).
     startsWith l UPDATE_FILE \<longrightarrow> trim (drop (length UPDATE_FILE) l) \<noteq> ''src/a.ts''"
  by code_simp

lemma set_prop_fresh: "map_of ps k = None \<Longrightarrow> set_prop k v ps = ps @ [(k, v)]"
  by (induction ps) (auto split: if_splits)

lemma map_of_set_prop:
  "map_of (set_prop k v ps) k' = (if k' = k then Some v else map_of ps k')"
  by (induction ps) auto

lemma indexOf_char_Some:
  "indexOf t [c] = Some i \<Longrightarrow> i < length t \<and> t ! i = c \<and> c \<notin> set (take i t)"
proof (induction t arbitrary: i)
  case Nil
  then show ?case by simp
next
  case (Cons a t)
  show ?case
  proof (cases "a = c")
    case True
    with Cons.prems show ?thesis by simp
  next
    case False
    with Cons.prems obtain i' where i: "i = Suc i'" and l: "indexOf t [c] = Some i'" by auto
    from Cons.IH[OF l] i False show ?thesis by auto
  qed
qed

lemma indexOf_char_None: "indexOf t [c] = None \<longleftrightarrow> c \<notin> set t"
  by (induction t) auto

lemma indexOf_char_before:
  assumes "indexOf t [c] = Some i" and "k < i"
  shows "t ! k \<noteq> c"
proof -
  from indexOf_char_Some[OF assms(1)] have l: "i < length t" and n: "c \<notin> set (take i t)"
    by simp_all
  have "k < length (take i t)" using l assms(2) by simp
  then have "take i t ! k \<in> set (take i t)" by (rule nth_mem)
  moreover have "take i t ! k = t ! k" using assms(2) by simp
  ultimately have "t ! k \<in> set (take i t)" by simp
  with n show ?thesis by blast
qed

lemma indexOf_char_first:
  assumes "c \<in> set t"
  shows "\<exists>i. indexOf t [c] = Some i \<and> (\<forall>k<length t. t ! k = c \<longrightarrow> i \<le> k)"
proof -
  from assms obtain i where i: "indexOf t [c] = Some i"
    using indexOf_char_None[of t c] by (cases "indexOf t [c]") simp_all
  have "\<forall>k<length t. t ! k = c \<longrightarrow> i \<le> k"
  proof (intro allI impI)
    fix k assume k: "k < length t" "t ! k = c"
    show "i \<le> k"
    proof (rule ccontr)
      assume "\<not> i \<le> k"
      then have "k < i" by simp
      from indexOf_char_before[OF i this] k(2) show False by simp
    qed
  qed
  with i show ?thesis by blast
qed

lemma lastIndexOf_char_Some:
  assumes "lastIndexOf t [c] = Some j"
  shows "j < length t \<and> t ! j = c \<and> c \<notin> set (drop (Suc j) t)"
proof -
  from assms obtain k where k: "indexOf (rev t) [c] = Some k" and j: "j = length t - k - 1"
    by (auto simp: lastIndexOf_def)
  from indexOf_char_Some[OF k] have kl: "k < length t" and kc: "rev t ! k = c"
    and kn: "c \<notin> set (take k (rev t))" by auto
  have jl: "j < length t" using kl j by simp
  have "rev t ! k = t ! (length t - Suc k)" using kl by (simp add: rev_nth)
  with kc j have tj: "t ! j = c" by simp
  have "take k (rev t) = rev (drop (length t - k) t)" by (simp add: take_rev)
  moreover have "length t - k = Suc j" using kl j by simp
  ultimately have "c \<notin> set (drop (Suc j) t)" using kn by simp
  with jl tj show ?thesis by simp
qed

lemma lastIndexOf_char_None: "lastIndexOf t [c] = None \<longleftrightarrow> c \<notin> set t"
  by (simp add: lastIndexOf_def indexOf_char_None)

lemma lastIndexOf_char_after:
  assumes "lastIndexOf t [c] = Some j" and "j < k" and "k < length t"
  shows "t ! k \<noteq> c"
proof -
  from lastIndexOf_char_Some[OF assms(1)] have n: "c \<notin> set (drop (Suc j) t)" by simp
  have "k - Suc j < length (drop (Suc j) t)" using assms(2,3) by simp
  then have "drop (Suc j) t ! (k - Suc j) \<in> set (drop (Suc j) t)" by (rule nth_mem)
  moreover have "drop (Suc j) t ! (k - Suc j) = t ! k" using assms(2,3) by simp
  ultimately have "t ! k \<in> set (drop (Suc j) t)" by simp
  with n show ?thesis by blast
qed

lemma lastIndexOf_char_last:
  assumes "c \<in> set t"
  shows "\<exists>j. lastIndexOf t [c] = Some j \<and> (\<forall>k<length t. t ! k = c \<longrightarrow> k \<le> j)"
proof -
  from assms obtain j where j: "lastIndexOf t [c] = Some j"
    using lastIndexOf_char_None[of t c] by (cases "lastIndexOf t [c]") simp_all
  have "\<forall>k<length t. t ! k = c \<longrightarrow> k \<le> j"
  proof (intro allI impI)
    fix k assume k: "k < length t" "t ! k = c"
    show "k \<le> j"
    proof (rule ccontr)
      assume "\<not> k \<le> j"
      then have "j < k" by simp
      from lastIndexOf_char_after[OF j this k(1)] k(2) show False by simp
    qed
  qed
  with j show ?thesis by blast
qed

lemma span_candidates_Some:
  assumes "span_candidates t [opening] [closing] = [x]"
  shows "\<exists>pre post. t = pre @ x @ post \<and> opening \<notin> set pre \<and> closing \<notin> set post
           \<and> hd x = opening \<and> last x = closing \<and> 2 \<le> length x"
proof -
  from assms obtain i j where i: "indexOf t [opening] = Some i"
    and j: "lastIndexOf t [closing] = Some j" and ij: "i < j" and x: "x = slice t i (j + 1)"
    by (auto simp: span_candidates_def split: option.splits if_splits)
  from indexOf_char_Some[OF i] have il: "i < length t" and ti: "t ! i = opening"
    and ni: "opening \<notin> set (take i t)" by auto
  from lastIndexOf_char_Some[OF j] have jl: "j < length t" and tj: "t ! j = closing"
    and nj: "closing \<notin> set (drop (Suc j) t)" by auto
  have len: "length x = j + 1 - i" using x jl by (simp add: slice_def)
  have t: "t = take i t @ x @ drop (Suc j) t"
  proof -
    have "take (j + 1 - i) (drop i t) @ drop (j + 1 - i) (drop i t) = drop i t"
      by (rule append_take_drop_id)
    moreover have "drop (j + 1 - i) (drop i t) = drop (Suc j) t" using ij by simp
    ultimately have "x @ drop (Suc j) t = drop i t" using x by (simp add: slice_def)
    then show ?thesis by simp
  qed
  have hx: "hd x = opening"
    using x ij il ti by (simp add: slice_def hd_conv_nth)
  have "x \<noteq> []" using len ij by auto
  then have "last x = x ! (length x - 1)" by (rule last_conv_nth)
  also have "\<dots> = t ! j" using x len ij jl by (simp add: slice_def)
  finally have lx: "last x = closing" using tj by simp
  have l2: "2 \<le> length x" using len ij by simp
  from t ni nj hx lx l2
  have "t = take i t @ x @ drop (Suc j) t \<and> opening \<notin> set (take i t)
          \<and> closing \<notin> set (drop (Suc j) t) \<and> hd x = opening \<and> last x = closing
          \<and> 2 \<le> length x" by blast
  then show ?thesis by blast
qed

lemma span_candidates_exists:
  assumes "i < j" and "j < length t" and "t ! i = opening" and "t ! j = closing"
  shows "span_candidates t [opening] [closing] \<noteq> []"
proof -
  have "i < length t" using assms by simp
  then have "t ! i \<in> set t" by (rule nth_mem)
  then have "opening \<in> set t" using assms by simp
  from indexOf_char_first[OF this] obtain i0 where
    i0: "indexOf t [opening] = Some i0" "\<forall>k<length t. t ! k = opening \<longrightarrow> i0 \<le> k" by blast
  have "t ! j \<in> set t" using assms(2) by (rule nth_mem)
  then have "closing \<in> set t" using assms by simp
  from lastIndexOf_char_last[OF this] obtain j0 where
    j0: "lastIndexOf t [closing] = Some j0" "\<forall>k<length t. t ! k = closing \<longrightarrow> k \<le> j0" by blast
  have "i0 \<le> i" using i0(2) assms by simp
  moreover have "j \<le> j0" using j0(2) assms by simp
  ultimately have "i0 < j0" using assms(1) by simp
  with i0(1) j0(1) show ?thesis by (simp add: span_candidates_def)
qed

lemma span_candidates_length: "length (span_candidates t opening closing) \<le> 1"
  by (simp add: span_candidates_def split: option.splits)

lemma first_parsed_skip:
  "c = [] \<or> p c = None \<Longrightarrow> first_parsed p (c # cs) = first_parsed p cs"
  by auto

lemma first_parsed_hit: "c \<noteq> [] \<Longrightarrow> p c = Some u \<Longrightarrow> first_parsed p (c # cs) = Some u"
  by simp

lemma first_parsed_Some_D:
  "first_parsed p cs = Some v \<Longrightarrow>
     \<exists>i<length cs. cs ! i \<noteq> [] \<and> p (cs ! i) = Some v
                   \<and> (\<forall>j<i. cs ! j = [] \<or> p (cs ! j) = None)"
proof (induction cs)
  case Nil
  then show ?case by simp
next
  case (Cons c cs)
  show ?case
  proof (cases "c = [] \<or> p c = None")
    case True
    from Cons.prems first_parsed_skip[where p = p and c = c and cs = cs, OF True]
    have "first_parsed p cs = Some v" by simp
    from Cons.IH[OF this] obtain i where i: "i < length cs" "cs ! i \<noteq> []" "p (cs ! i) = Some v"
      "\<forall>j<i. cs ! j = [] \<or> p (cs ! j) = None" by (elim exE conjE) (rule that; assumption)
    have "\<forall>j<Suc i. (c # cs) ! j = [] \<or> p ((c # cs) ! j) = None"
    proof (intro allI impI)
      fix j assume j: "j < Suc i"
      show "(c # cs) ! j = [] \<or> p ((c # cs) ! j) = None"
      proof (cases j)
        case 0
        with True show ?thesis by simp
      next
        case (Suc j')
        with j have "j' < i" by simp
        from i(4)[rule_format, OF this] have "cs ! j' = [] \<or> p (cs ! j') = None" .
        with Suc show ?thesis by simp
      qed
    qed
    note rest = this
    show ?thesis
    proof (intro exI conjI)
      show "Suc i < length (c # cs)" using i(1) by simp
      show "(c # cs) ! Suc i \<noteq> []" using i(2) by simp
      show "p ((c # cs) ! Suc i) = Some v" using i(3) by simp
      show "\<forall>j<Suc i. (c # cs) ! j = [] \<or> p ((c # cs) ! j) = None" by (rule rest)
    qed
  next
    case False
    then obtain u where u: "c \<noteq> []" "p c = Some u" by blast
    from Cons.prems first_parsed_hit[where p = p and c = c and cs = cs and u = u, OF u]
    have uv: "u = v" by simp
    show ?thesis
    proof (intro exI conjI)
      show "0 < length (c # cs)" by simp
      show "(c # cs) ! 0 \<noteq> []" using u(1) by simp
      show "p ((c # cs) ! 0) = Some v" using u(2) uv by simp
      show "\<forall>j<0::nat. (c # cs) ! j = [] \<or> p ((c # cs) ! j) = None" by simp
    qed
  qed
qed

lemma first_parsed_Some_I:
  "i < length cs \<Longrightarrow> cs ! i \<noteq> [] \<Longrightarrow> p (cs ! i) = Some v \<Longrightarrow>
   \<forall>j<i. cs ! j = [] \<or> p (cs ! j) = None \<Longrightarrow> first_parsed p cs = Some v"
proof (induction cs arbitrary: i)
  case Nil
  then show ?case by simp
next
  case (Cons c cs)
  show ?case
  proof (cases i)
    case 0
    with Cons.prems(2,3) have "c \<noteq> []" "p c = Some v" by simp_all
    then show ?thesis by (rule first_parsed_hit[where p = p and c = c and cs = cs and u = v])
  next
    case (Suc i')
    then have "0 < i" by simp
    from Cons.prems(4)[rule_format, OF this]
    have "(c # cs) ! 0 = [] \<or> p ((c # cs) ! 0) = None" .
    then have sk: "c = [] \<or> p c = None" by simp
    have a: "i' < length cs" using Cons.prems(1) Suc by simp
    have b: "cs ! i' \<noteq> []" using Cons.prems(2) Suc by simp
    have c: "p (cs ! i') = Some v" using Cons.prems(3) Suc by simp
    have d: "\<forall>j<i'. cs ! j = [] \<or> p (cs ! j) = None"
    proof (intro allI impI)
      fix j assume "j < i'"
      then have "Suc j < i" using Suc by simp
      from Cons.prems(4)[rule_format, OF this]
      have "(c # cs) ! Suc j = [] \<or> p ((c # cs) ! Suc j) = None" .
      then show "cs ! j = [] \<or> p (cs ! j) = None" by simp
    qed
    from Cons.IH[OF a b c d] first_parsed_skip[where p = p and c = c and cs = cs, OF sk]
    show ?thesis by simp
  qed
qed

lemma first_parsed_Some:
  "first_parsed p cs = Some v \<longleftrightarrow>
     (\<exists>i<length cs. cs ! i \<noteq> [] \<and> p (cs ! i) = Some v
                   \<and> (\<forall>j<i. cs ! j = [] \<or> p (cs ! j) = None))"
proof
  assume "first_parsed p cs = Some v"
  then show "\<exists>i<length cs. cs ! i \<noteq> [] \<and> p (cs ! i) = Some v
                   \<and> (\<forall>j<i. cs ! j = [] \<or> p (cs ! j) = None)"
    by (rule first_parsed_Some_D)
next
  assume "\<exists>i<length cs. cs ! i \<noteq> [] \<and> p (cs ! i) = Some v
                   \<and> (\<forall>j<i. cs ! j = [] \<or> p (cs ! j) = None)"
  then obtain i where "i < length cs" "cs ! i \<noteq> []" "p (cs ! i) = Some v"
      "\<forall>j<i. cs ! j = [] \<or> p (cs ! j) = None" by (elim exE conjE) (rule that; assumption)
  then show "first_parsed p cs = Some v" by (rule first_parsed_Some_I)
qed

lemma first_parsed_None:
  "first_parsed p cs = None \<longleftrightarrow> (\<forall>c\<in>set cs. c = [] \<or> p c = None)"
  by (induction cs) (auto split: option.splits)

lemma fence_closed:
  assumes s: "indexOf t FENCE = Some s" and e: "indexOfFrom t FENCE (s + 3) = Some e"
  shows "t = take s t @ FENCE @ slice t (s + 3) e @ FENCE @ drop (e + 3) t
         \<and> fence_candidates t = [trim (strip_json_tag (trim (slice t (s + 3) e)))]"
proof -
  have lf: "length FENCE = 3" by (simp add: FENCE_def)
  from indexOf_Some[OF s] have t1: "t = take s t @ FENCE @ drop (s + 3) t" by (simp add: lf)
  from e obtain k where k: "indexOf (drop (s + 3) t) FENCE = Some k" and ek: "e = k + (s + 3)"
    by (auto simp: indexOfFrom_def)
  let ?r = "drop (s + 3) t"
  from indexOf_Some[OF k] have t2: "?r = take k ?r @ FENCE @ drop (k + 3) ?r" by (simp add: lf)
  have sl: "slice t (s + 3) e = take k ?r" using ek by (simp add: slice_def)
  have dr: "drop (k + 3) ?r = drop (e + 3) t" using ek by (simp add: add.commute add.left_commute)
  have "t = take s t @ FENCE @ (take k ?r @ FENCE @ drop (k + 3) ?r)"
    using t1 t2 by simp
  then have "t = take s t @ FENCE @ slice t (s + 3) e @ FENCE @ drop (e + 3) t"
    using sl dr by simp
  moreover have "fence_candidates t = [trim (strip_json_tag (trim (slice t (s + 3) e)))]"
    using s e by (simp add: fence_candidates_def)
  ultimately show ?thesis by blast
qed

lemma stageRequested_strings:
  assumes "\<forall>p\<in>set reqs. ws p \<noteq> Some Directory"
  shows "\<exists>dir'. stageRequested ws (map JString reqs) dir staged
                  = (True, dir', staged @ existing ws reqs)
               \<and> dom dir' = dom dir \<union> flatName ` set (existing ws reqs)
               \<and> (\<forall>k. k \<notin> flatName ` set (existing ws reqs) \<longrightarrow> dir' k = dir k)"
  using assms
proof (induction reqs arbitrary: dir staged)
  case Nil
  then show ?case by (simp add: existing_def)
next
  case (Cons p reqs)
  from Cons.prems have rest: "\<forall>p\<in>set reqs. ws p \<noteq> Some Directory" by simp
  show ?case
  proof (cases "ws p")
    case None
    with Cons.IH[OF rest, of dir staged] show ?thesis by (simp add: existing_def)
  next
    case (Some nd)
    with Cons.prems obtain body where f: "ws p = Some (File body)" by (cases nd) auto
    from Cons.IH[OF rest, of "dir(flatName p \<mapsto> body)" "staged @ [p]"]
    obtain dir' where d: "stageRequested ws (map JString reqs) (dir(flatName p \<mapsto> body)) (staged @ [p])
                  = (True, dir', (staged @ [p]) @ existing ws reqs)"
      and dm: "dom dir' = dom (dir(flatName p \<mapsto> body)) \<union> flatName ` set (existing ws reqs)"
      and fr: "\<forall>k. k \<notin> flatName ` set (existing ws reqs) \<longrightarrow> dir' k = (dir(flatName p \<mapsto> body)) k"
      by blast
    have e: "existing ws (p # reqs) = p # existing ws reqs" using f by (simp add: existing_def)
    have "stageRequested ws (map JString (p # reqs)) dir staged
            = (True, dir', staged @ existing ws (p # reqs))"
      using f d e by simp
    moreover have "dom dir' = dom dir \<union> flatName ` set (existing ws (p # reqs))"
      using dm e by auto
    moreover have "\<forall>k. k \<notin> flatName ` set (existing ws (p # reqs)) \<longrightarrow> dir' k = dir k"
      using fr e by auto
    ultimately show ?thesis by blast
  qed
qed

lemma request_response_fields:
  "get_prop request_response ''status'' = Some (JString ''NEED_CONTEXT'')"
  "get_prop request_response ''request_files''
     = Some (JArray (map JString [''src/a.ts'', ''src/missing.ts'']))"
  by (simp_all add: request_response_def)

lemma start_world_no_directory:
  "\<forall>p\<in>set [''src/a.ts'', ''src/missing.ts'']. workspace start_world p \<noteq> Some Directory"
  by (simp add: start_world_def)

lemma fence_candidates_none: "\<not> sublist FENCE t \<Longrightarrow> fence_candidates t = []"
  by (simp add: fence_candidates_def indexOf_None[symmetric])

lemma fence_open:
  "indexOf t FENCE = Some s \<and> indexOfFrom t FENCE (s + 3) = None \<Longrightarrow>
     fence_candidates t = [trim (strip_trailing_fence (strip_leading_fence t))]"
  by (simp add: fence_candidates_def)

lemma strip_leading_fence_eq:
  "strip_leading_fence (FENCE @ r) = dropWhile isSpace (if prefix ''json'' r then drop 4 r else r)"
  by (simp add: strip_leading_fence_def FENCE_def)

lemma strip_trailing_fence_eq: "strip_trailing_fence (s @ FENCE) = rev (dropWhile isSpace (rev s))"
  by (simp add: strip_trailing_fence_def FENCE_def suffix_def)

lemma strip_json_tag_eq: "strip_json_tag (''json'' @ s) = dropWhile isSpace s"
  by (simp add: strip_json_tag_def)

lemma first_parsed_strict:
  assumes e: "p [] = None"
  shows "first_parsed p cs = Some v \<longleftrightarrow>
           (\<exists>i<length cs. p (cs ! i) = Some v \<and> (\<forall>j<i. p (cs ! j) = None))"
proof
  assume "first_parsed p cs = Some v"
  from first_parsed_Some_D[OF this] obtain i where i: "i < length cs" "p (cs ! i) = Some v"
    "\<forall>j<i. cs ! j = [] \<or> p (cs ! j) = None" by (elim exE conjE) (rule that; assumption)
  have "\<forall>j<i. p (cs ! j) = None"
  proof (intro allI impI)
    fix j assume "j < i"
    from i(3)[rule_format, OF this] e show "p (cs ! j) = None" by auto
  qed
  with i(1,2) show "\<exists>i<length cs. p (cs ! i) = Some v \<and> (\<forall>j<i. p (cs ! j) = None)"
    by (intro exI[of _ i] conjI)
next
  assume "\<exists>i<length cs. p (cs ! i) = Some v \<and> (\<forall>j<i. p (cs ! j) = None)"
  then obtain i where i: "i < length cs" "p (cs ! i) = Some v" "\<forall>j<i. p (cs ! j) = None"
    by (elim exE conjE) (rule that; assumption)
  have ne: "cs ! i \<noteq> []" using i(2) e by auto
  have "\<forall>j<i. cs ! j = [] \<or> p (cs ! j) = None"
  proof (intro allI impI)
    fix j assume "j < i"
    from i(3)[rule_format, OF this] show "cs ! j = [] \<or> p (cs ! j) = None" by (rule disjI2)
  qed
  with i(1) ne i(2) show "first_parsed p cs = Some v" by (rule first_parsed_Some_I)
qed

lemma fenced_text_normal: "normalizeJsonLikeResponse (trim fenced_text) = fenced_text"
  by code_simp

lemma fenced_text_fences:
  "indexOf fenced_text FENCE = Some 0 \<and> indexOfFrom fenced_text FENCE (0 + 3) = Some 12"
  by code_simp

lemma fenced_text_interior: "trim (strip_json_tag (trim (slice fenced_text (0 + 3) 12))) = ''[1]''"
  by code_simp

lemma open_fence_text_fences:
  "indexOf open_fence_text FENCE = Some 0 \<and> indexOfFrom open_fence_text FENCE (0 + 3) = None"
  by code_simp

lemma open_fence_text_stripped:
  "trim (strip_trailing_fence (strip_leading_fence open_fence_text)) = ''[1]''"
  by code_simp







lemma swallowing_diff_blocks:
  "blocks swallowing_diff
     = [(''a'', join_nl [''b'', ''<<<<<<< SEARCH'', ''c'', ''======='', ''d''])]"
  by code_simp

lemma parseResponse_Some:
  "parseResponse p jsonText = Some d \<longleftrightarrow>
     (\<exists>v. first_parsed p (candidates (normalizeJsonLikeResponse (trim jsonText))) = Some v
          \<and> d = coerce v)"
  by (auto simp: parseResponse_def)

lemma untagged_fence_text_fences:
  "indexOf untagged_fence_text FENCE = Some 0
   \<and> indexOfFrom untagged_fence_text FENCE (0 + 3) = Some 8"
  by code_simp

lemma untagged_fence_text_interior:
  "trim (strip_json_tag (trim (slice untagged_fence_text (0 + 3) 8))) = ''[1]''"
  by code_simp

lemma fenced_rewrite_text_first:
  "first_parsed (JSON_parse edit_env)
     (candidates (normalizeJsonLikeResponse (trim fenced_rewrite_text))) = Some rewrite_array"
  by code_simp

lemma coerce_rewrite_array: "coerce rewrite_array = rewrite_response"
  by (simp add: coerce_def rewrite_array_def rewrite_response_def)

text \<open>
  What the handler does with a response it cannot use: with no parsing candidate it
  returns ERROR, with a value other than \<^verbatim>\<open>null\<close> whose status is neither COMPLETED nor
  NEED\_CONTEXT it returns UNKNOWN; each time the one notification is the only change of
  the world. On the value \<^verbatim>\<open>null\<close> the read of \<^verbatim>\<open>data.status\<close> throws.
\<close>

lemma unusable_response_keeps_state:
  "(\<forall>e jsonText goal w.
      parseResponse (JSON_parse e) jsonText = None \<longrightarrow>
      handleAIResponse e jsonText goal w = (Returned ERROR, w\<lparr>notices := notices w @ [InvalidJson]\<rparr>)
      \<and> same_task_state w (snd (handleAIResponse e jsonText goal w)))
   \<and> (\<forall>e jsonText goal w data.
      parseResponse (JSON_parse e) jsonText = Some data \<and> data \<noteq> JNull
      \<and> get_prop data ''status'' \<noteq> Some (JString ''COMPLETED'')
      \<and> get_prop data ''status'' \<noteq> Some (JString ''NEED_CONTEXT'') \<longrightarrow>
      handleAIResponse e jsonText goal w
        = (Returned UNKNOWN, w\<lparr>notices := notices w @ [MissingStatus]\<rparr>)
      \<and> same_task_state w (snd (handleAIResponse e jsonText goal w)))
   \<and> (\<forall>e jsonText goal w.
      parseResponse (JSON_parse e) jsonText = Some JNull \<longrightarrow>
      handleAIResponse e jsonText goal w = (Threw, w))
   \<and> severity_of InvalidJson = Error \<and> severity_of MissingStatus = Warning"
  by (simp add: handleAIResponse_def handleData_def notify_def same_task_state_def)

text \<open>
  A PATCH change is applied as the DIFF change with the converted text. On plain hunks
  this is the same as reading the hunks directly as blocks.
\<close>

lemma patch_path_is_diff_path:
  "applyChange st \<lparr>file_path = tf, type = ''PATCH'', content = patch\<rparr>
     = applyChange st
         \<lparr>file_path = tf, type = ''DIFF'', content = patchEnvelopeToDiffForFile patch tf\<rparr>"
  by (simp add: applyChange_def)

lemma patch_path_agrees_on_plain_hunks:
  assumes "\<forall>h\<in>set (patch_hunks patch tf). plain_hunk h"
  shows "applyChange (w, noted) \<lparr>file_path = tf, type = ''PATCH'', content = patch\<rparr>
           = (fst (foldl applyBlock (w, []) (map hunk_block (patch_hunks patch tf))),
              noted @ snd (foldl applyBlock (w, []) (map hunk_block (patch_hunks patch tf))))
         \<and> applyChange (w, noted) \<lparr>file_path = tf, type = ''PATCH'', content = patch\<rparr>
           = applyChange (w, noted)
               \<lparr>file_path = tf, type = ''DIFF'', content = patchEnvelopeToDiffForFile patch tf\<rparr>"
  by (simp add: applyChange_def applySearchReplace_def loop_foldl split_def Let_def
                blocks_patchEnvelopeToDiffForFile[OF assms])

section \<open>The claims\<close>



text \<open>
  C2, evaluated where the code departs from it. The envelope keeps the line \<open>Title\<close> and
  replaces the line \<open>=======\<close> under it by \<open>-------\<close>. \<^verbatim>\<open>pushBlock\<close> holds the search
  lines \<open>Title\<close>, \<open>=======\<close> and the replacement lines \<open>Title\<close>, \<open>-------\<close>, which read
  directly as a block turn \<open>Title/=======/body\<close> into \<open>Title/-------/body\<close>. It writes
  them into diff text as they are, and the block expression reads the removed line as the
  separator: the search text is \<open>Title\<close> alone, the replacement starts with \<open>=======\<close>,
  and the PATCH change gives \<open>=======/Title/-------/=======/body\<close> with no warning.
\<close>

theorem patch_path_differs_on_separator_line:
  "fst (applyChange (title_content, [])
          \<lparr>file_path = ''README.md'', type = ''PATCH'', content = title_patch\<rparr>)
     = join_nl [''======='', ''Title'', ''-------'', ''======='', ''body'']
   \<and> snd (applyChange (title_content, [])
          \<lparr>file_path = ''README.md'', type = ''PATCH'', content = title_patch\<rparr>) = []
   \<and> fst (foldl applyBlock (title_content, [])
            (map hunk_block (patch_hunks title_patch ''README.md'')))
     = join_nl [''Title'', ''-------'', ''body'']
   \<and> fst (applyChange (title_content, [])
          \<lparr>file_path = ''README.md'', type = ''PATCH'', content = title_patch\<rparr>)
     \<noteq> fst (foldl applyBlock (title_content, [])
            (map hunk_block (patch_hunks title_patch ''README.md'')))"
  by code_simp

text \<open>
  C3. The candidates are, in this order: the fence candidate, the whole trimmed and
  repaired text, the span from the first \<open>[\<close> to the last \<open>]\<close>, and the span from the first
  \<open>{\<close> to the last \<open>}\<close>. With a closed fence the fence candidate is the text between the
  first fence and the next one, trimmed, with a leading \<open>json\<close> and the white space behind
  it removed; with an open fence it is the whole text without a fence at its start (with
  its \<open>json\<close> tag) and without a fence at its end; without a fence there is none. A span
  candidate is there exactly when an opening bracket stands before a closing one, and it
  then starts at the first opening and ends at the last closing bracket. The loop gives
  the value of the first candidate that is not empty and parses (for a parser that
  rejects the empty text: the first candidate that parses), and it gives nothing exactly
  when no candidate parses; the handler then returns ERROR with the notification
  \<^const>\<open>InvalidJson\<close>. When a candidate parses, the handler goes on with the value of
  the first such candidate, made into the response data by \<^const>\<open>coerce\<close>. A fence
  interior without the \<open>json\<close> tag is taken as it is.
\<close>

theorem first_parsing_candidate_wins:
  "(\<forall>t. candidates t
          = fence_candidates t @ [t] @ span_candidates t ''['' '']'' @ span_candidates t ''{'' ''}'')
   \<and> (\<forall>t. \<not> sublist FENCE t \<longrightarrow> fence_candidates t = [])
   \<and> (\<forall>t s e. indexOf t FENCE = Some s \<and> indexOfFrom t FENCE (s + 3) = Some e \<longrightarrow>
        t = take s t @ FENCE @ slice t (s + 3) e @ FENCE @ drop (e + 3) t
        \<and> fence_candidates t = [trim (strip_json_tag (trim (slice t (s + 3) e)))])
   \<and> (\<forall>t s. indexOf t FENCE = Some s \<and> indexOfFrom t FENCE (s + 3) = None \<longrightarrow>
        fence_candidates t = [trim (strip_trailing_fence (strip_leading_fence t))])
   \<and> (\<forall>r. strip_leading_fence (FENCE @ r)
            = dropWhile isSpace (if prefix ''json'' r then drop 4 r else r))
   \<and> (\<forall>s. strip_trailing_fence (s @ FENCE) = rev (dropWhile isSpace (rev s)))
   \<and> (\<forall>s. strip_json_tag (''json'' @ s) = dropWhile isSpace s)
   \<and> (\<forall>t opening closing x. span_candidates t [opening] [closing] = [x] \<longrightarrow>
        (\<exists>pre post. t = pre @ x @ post \<and> opening \<notin> set pre \<and> closing \<notin> set post
           \<and> hd x = opening \<and> last x = closing \<and> 2 \<le> length x))
   \<and> (\<forall>t opening closing i j. i < j \<and> j < length t \<and> t ! i = opening \<and> t ! j = closing \<longrightarrow>
        span_candidates t [opening] [closing] \<noteq> [])
   \<and> (\<forall>t opening closing. length (span_candidates t opening closing) \<le> 1)
   \<and> (\<forall>p cs v. first_parsed p cs = Some v \<longleftrightarrow>
        (\<exists>i<length cs. cs ! i \<noteq> [] \<and> p (cs ! i) = Some v
                      \<and> (\<forall>j<i. cs ! j = [] \<or> p (cs ! j) = None)))
   \<and> (\<forall>p cs v. p [] = None \<longrightarrow>
        (first_parsed p cs = Some v \<longleftrightarrow>
           (\<exists>i<length cs. p (cs ! i) = Some v \<and> (\<forall>j<i. p (cs ! j) = None))))
   \<and> (\<forall>p cs. first_parsed p cs = None \<longleftrightarrow> (\<forall>c\<in>set cs. c = [] \<or> p c = None))
   \<and> (\<forall>p jsonText.
        parseResponse p jsonText
          = map_option coerce
              (first_parsed p (candidates (normalizeJsonLikeResponse (trim jsonText)))))
   \<and> (\<forall>e jsonText goal w.
        first_parsed (JSON_parse e) (candidates (normalizeJsonLikeResponse (trim jsonText))) = None
        \<longrightarrow> handleAIResponse e jsonText goal w = (Returned ERROR, notify InvalidJson w))
   \<and> (\<forall>s. \<not> prefix ''json'' s \<longrightarrow> strip_json_tag s = s)
   \<and> (\<forall>s. \<not> prefix FENCE s \<longrightarrow> strip_leading_fence s = s)
   \<and> (\<forall>s. \<not> suffix FENCE s \<longrightarrow> strip_trailing_fence s = s)
   \<and> (\<forall>p jsonText d.
        parseResponse p jsonText = Some d \<longleftrightarrow>
          (\<exists>v. first_parsed p (candidates (normalizeJsonLikeResponse (trim jsonText))) = Some v
               \<and> d = coerce v))
   \<and> (\<forall>e jsonText goal w v.
        first_parsed (JSON_parse e) (candidates (normalizeJsonLikeResponse (trim jsonText))) = Some v
        \<longrightarrow> handleAIResponse e jsonText goal w = handleData e goal (coerce v) w)"
proof (intro conjI)
  show "\<forall>t. candidates t
          = fence_candidates t @ [t] @ span_candidates t ''['' '']'' @ span_candidates t ''{'' ''}''"
    by (simp add: candidates_def)
  show "\<forall>t. \<not> sublist FENCE t \<longrightarrow> fence_candidates t = []"
    by (intro allI impI) (rule fence_candidates_none)
  show "\<forall>t s e. indexOf t FENCE = Some s \<and> indexOfFrom t FENCE (s + 3) = Some e \<longrightarrow>
        t = take s t @ FENCE @ slice t (s + 3) e @ FENCE @ drop (e + 3) t
        \<and> fence_candidates t = [trim (strip_json_tag (trim (slice t (s + 3) e)))]"
  proof (intro allI impI)
    fix t s e
    assume "indexOf t FENCE = Some s \<and> indexOfFrom t FENCE (s + 3) = Some e"
    then have "indexOf t FENCE = Some s" "indexOfFrom t FENCE (s + 3) = Some e" by simp_all
    then show "t = take s t @ FENCE @ slice t (s + 3) e @ FENCE @ drop (e + 3) t
        \<and> fence_candidates t = [trim (strip_json_tag (trim (slice t (s + 3) e)))]"
      by (rule fence_closed)
  qed
  show "\<forall>t s. indexOf t FENCE = Some s \<and> indexOfFrom t FENCE (s + 3) = None \<longrightarrow>
        fence_candidates t = [trim (strip_trailing_fence (strip_leading_fence t))]"
    by (intro allI impI) (rule fence_open)
  show "\<forall>r. strip_leading_fence (FENCE @ r)
            = dropWhile isSpace (if prefix ''json'' r then drop 4 r else r)"
    by (intro allI) (rule strip_leading_fence_eq)
  show "\<forall>s. strip_trailing_fence (s @ FENCE) = rev (dropWhile isSpace (rev s))"
    by (intro allI) (rule strip_trailing_fence_eq)
  show "\<forall>s. strip_json_tag (''json'' @ s) = dropWhile isSpace s"
    by (intro allI) (rule strip_json_tag_eq)
  show "\<forall>t opening closing x. span_candidates t [opening] [closing] = [x] \<longrightarrow>
        (\<exists>pre post. t = pre @ x @ post \<and> opening \<notin> set pre \<and> closing \<notin> set post
           \<and> hd x = opening \<and> last x = closing \<and> 2 \<le> length x)"
    by (intro allI impI) (rule span_candidates_Some)
  show "\<forall>t opening closing i j. i < j \<and> j < length t \<and> t ! i = opening \<and> t ! j = closing \<longrightarrow>
        span_candidates t [opening] [closing] \<noteq> []"
  proof (intro allI impI)
    fix t :: string and ob cb i j
    assume "i < j \<and> j < length t \<and> t ! i = ob \<and> t ! j = cb"
    then have "i < j" "j < length t" "t ! i = ob" "t ! j = cb" by simp_all
    then show "span_candidates t [ob] [cb] \<noteq> []" by (rule span_candidates_exists)
  qed
  show "\<forall>t opening closing. length (span_candidates t opening closing) \<le> 1"
    by (intro allI) (rule span_candidates_length)
  show "\<forall>p cs v. first_parsed p cs = Some v \<longleftrightarrow>
        (\<exists>i<length cs. cs ! i \<noteq> [] \<and> p (cs ! i) = Some v
                      \<and> (\<forall>j<i. cs ! j = [] \<or> p (cs ! j) = None))"
    by (intro allI) (rule first_parsed_Some)
  show "\<forall>p cs v. p [] = None \<longrightarrow>
        (first_parsed p cs = Some v \<longleftrightarrow>
           (\<exists>i<length cs. p (cs ! i) = Some v \<and> (\<forall>j<i. p (cs ! j) = None)))"
    by (intro allI impI) (rule first_parsed_strict)
  show "\<forall>p cs. first_parsed p cs = None \<longleftrightarrow> (\<forall>c\<in>set cs. c = [] \<or> p c = None)"
    by (intro allI) (rule first_parsed_None)
  show "\<forall>p jsonText.
        parseResponse p jsonText
          = map_option coerce
              (first_parsed p (candidates (normalizeJsonLikeResponse (trim jsonText))))"
    by (simp add: parseResponse_def)
  show "\<forall>e jsonText goal w.
        first_parsed (JSON_parse e) (candidates (normalizeJsonLikeResponse (trim jsonText))) = None
        \<longrightarrow> handleAIResponse e jsonText goal w = (Returned ERROR, notify InvalidJson w)"
    by (simp add: handleAIResponse_def parseResponse_def)
  show "\<forall>s. \<not> prefix ''json'' s \<longrightarrow> strip_json_tag s = s"
    by (simp add: strip_json_tag_def)
  show "\<forall>s. \<not> prefix FENCE s \<longrightarrow> strip_leading_fence s = s"
    by (simp add: strip_leading_fence_def)
  show "\<forall>s. \<not> suffix FENCE s \<longrightarrow> strip_trailing_fence s = s"
    by (simp add: strip_trailing_fence_def)
  show "\<forall>p jsonText d.
        parseResponse p jsonText = Some d \<longleftrightarrow>
          (\<exists>v. first_parsed p (candidates (normalizeJsonLikeResponse (trim jsonText))) = Some v
               \<and> d = coerce v)"
    by (intro allI) (rule parseResponse_Some)
  show "\<forall>e jsonText goal w v.
        first_parsed (JSON_parse e) (candidates (normalizeJsonLikeResponse (trim jsonText))) = Some v
        \<longrightarrow> handleAIResponse e jsonText goal w = handleData e goal (coerce v) w"
    by (simp add: handleAIResponse_def parseResponse_def)
qed

theorem first_parsing_candidate_wins_witness:
  "indexOf fenced_text FENCE = Some 0 \<and> indexOfFrom fenced_text FENCE (0 + 3) = Some 12
   \<and> fence_candidates fenced_text = [''[1]'']
   \<and> candidates fenced_text = [''[1]'', fenced_text, ''[1]'']
   \<and> toy_parse [] = None
   \<and> parseResponse toy_parse fenced_text = parseResponse toy_parse ''[1]''
   \<and> parseResponse toy_parse fenced_text = Some (coerce (JArray [JNumber 1]))
   \<and> fence_candidates open_fence_text = [''[1]'']
   \<and> first_parsed toy_parse (candidates (normalizeJsonLikeResponse (trim ''not json''))) = None
   \<and> handleAIResponse toy_env ''not json'' ''goal'' start_world
       = (Returned ERROR, notify InvalidJson start_world)
   \<and> fence_candidates untagged_fence_text = [''[1]'']
   \<and> first_parsed (JSON_parse edit_env)
         (candidates (normalizeJsonLikeResponse (trim fenced_rewrite_text))) = Some rewrite_array
   \<and> handleAIResponse edit_env fenced_rewrite_text ''goal'' start_world
       = handleData edit_env ''goal'' rewrite_response start_world
   \<and> fst (handleAIResponse edit_env fenced_rewrite_text ''goal'' start_world) = Returned COMPLETED
   \<and> workspace (snd (handleAIResponse edit_env fenced_rewrite_text ''goal'' start_world))
         ''src/a.ts'' = Some (File ''new'')
   \<and> notices (snd (handleAIResponse edit_env fenced_rewrite_text ''goal'' start_world))
       = [AppliedChanges 1]"
proof -
  note t = first_parsing_candidate_wins
  have A: "\<forall>t. candidates t
          = fence_candidates t @ [t] @ span_candidates t ''['' '']'' @ span_candidates t ''{'' ''}''"
    using t by (elim conjE)
  have C: "\<forall>t s e. indexOf t FENCE = Some s \<and> indexOfFrom t FENCE (s + 3) = Some e \<longrightarrow>
        t = take s t @ FENCE @ slice t (s + 3) e @ FENCE @ drop (e + 3) t
        \<and> fence_candidates t = [trim (strip_json_tag (trim (slice t (s + 3) e)))]"
    using t by (elim conjE)
  have D: "\<forall>t s. indexOf t FENCE = Some s \<and> indexOfFrom t FENCE (s + 3) = None \<longrightarrow>
        fence_candidates t = [trim (strip_trailing_fence (strip_leading_fence t))]"
    using t by (elim conjE)
  have I: "\<forall>p jsonText.
        parseResponse p jsonText
          = map_option coerce
              (first_parsed p (candidates (normalizeJsonLikeResponse (trim jsonText))))"
    using t by (elim conjE)
  have J: "\<forall>e jsonText goal w.
        first_parsed (JSON_parse e) (candidates (normalizeJsonLikeResponse (trim jsonText))) = None
        \<longrightarrow> handleAIResponse e jsonText goal w = (Returned ERROR, notify InvalidJson w)"
    using t by (elim conjE)
  from C[rule_format, OF fenced_text_fences]
  have f: "fence_candidates fenced_text
             = [trim (strip_json_tag (trim (slice fenced_text (0 + 3) 12)))]" by (rule conjunct2)
  then have f': "fence_candidates fenced_text = [''[1]'']" by (simp only: fenced_text_interior)
  have sq: "span_candidates fenced_text ''['' '']'' = [''[1]'']" by code_simp
  have br: "span_candidates fenced_text ''{'' ''}'' = []" by code_simp
  from A[rule_format, of fenced_text]
  have c: "candidates fenced_text = [''[1]'', fenced_text, ''[1]'']"
    by (simp add: f' sq br)
  have e: "toy_parse [] = None" by (simp add: toy_parse_def done_text_def)
  have one: "toy_parse ''[1]'' = Some (JArray [JNumber 1])"
    by (simp add: toy_parse_def done_text_def)
  have two: "toy_parse fenced_text = None" by code_simp
  have fp: "first_parsed toy_parse [''[1]'', fenced_text, ''[1]''] = Some (JArray [JNumber 1])"
    by (simp add: one)
  from I[rule_format, of toy_parse fenced_text]
  have p: "parseResponse toy_parse fenced_text = Some (coerce (JArray [JNumber 1]))"
    by (simp only: fenced_text_normal c fp option.map)
  have n1: "normalizeJsonLikeResponse (trim ''[1]'') = ''[1]''" by code_simp
  have c1: "candidates ''[1]'' = [''[1]'', ''[1]'']" by code_simp
  have p1: "parseResponse toy_parse ''[1]'' = Some (coerce (JArray [JNumber 1]))"
    by (simp add: parseResponse_def n1 c1 one)
  from D[rule_format, OF open_fence_text_fences]
  have o: "fence_candidates open_fence_text = [''[1]'']"
    by (simp only: open_fence_text_stripped)
  have nn: "normalizeJsonLikeResponse (trim ''not json'') = ''not json''" by code_simp
  have nc: "first_parsed toy_parse (candidates (normalizeJsonLikeResponse (trim ''not json''))) = None"
    unfolding nn by code_simp
  then have nc': "first_parsed (JSON_parse toy_env)
                    (candidates (normalizeJsonLikeResponse (trim ''not json''))) = None"
    by (simp add: toy_env_def)
  from J[rule_format, OF nc'] have h: "handleAIResponse toy_env ''not json'' ''goal'' start_world
       = (Returned ERROR, notify InvalidJson start_world)" .
  have K: "\<forall>e jsonText goal w v.
        first_parsed (JSON_parse e) (candidates (normalizeJsonLikeResponse (trim jsonText))) = Some v
        \<longrightarrow> handleAIResponse e jsonText goal w = handleData e goal (coerce v) w"
    using t by (elim conjE)
  from C[rule_format, OF untagged_fence_text_fences]
  have uf: "fence_candidates untagged_fence_text = [''[1]'']"
    by (simp only: untagged_fence_text_interior)
  note fr = fenced_rewrite_text_first
  from K[rule_format, OF fr, of "''goal''" start_world]
  have hd: "handleAIResponse edit_env fenced_rewrite_text ''goal'' start_world
       = handleData edit_env ''goal'' rewrite_response start_world"
    by (simp only: coerce_rewrite_array)
  have r1: "fst (handleAIResponse edit_env fenced_rewrite_text ''goal'' start_world)
              = Returned COMPLETED"
    unfolding hd by code_simp
  have r2: "workspace (snd (handleAIResponse edit_env fenced_rewrite_text ''goal'' start_world))
         ''src/a.ts'' = Some (File ''new'')"
    unfolding hd by code_simp
  have r3: "notices (snd (handleAIResponse edit_env fenced_rewrite_text ''goal'' start_world))
       = [AppliedChanges 1]"
    unfolding hd by code_simp
  from fenced_text_fences f' c e p p1 o nc h uf fr hd r1 r2 r3
  show ?thesis by (simp only: simp_thms)
qed

text \<open>
  C4, as amended. For a NEED\_CONTEXT response whose \<^verbatim>\<open>request_files\<close> are strings none
  of which names a directory, the handler returns NEED\_CONTEXT, the round counter and
  the round directory go up by one, the workspace and all other rounds stay as they are,
  and \<^verbatim>\<open>stagedFiles\<close> of the new round is the structure listing, when round 1 holds
  one, followed by the requested paths that are on disk, in the order of the request;
  the paths that are not on disk are left out without a notification of their own. The
  directory of the new round gains the listing under its name and every staged file under
  its flat name; the listing is the one of round 1, unless a staged file has its flat name.
\<close>

theorem need_context_provisions_round:
  assumes st: "get_prop data ''status'' = Some (JString ''NEED_CONTEXT'')"
    and rq: "get_prop data ''request_files'' = Some (JArray (map JString reqs))"
    and nd: "\<forall>p\<in>set reqs. workspace w p \<noteq> Some Directory"
  shows "\<exists>w'. handleData e goal data w = (Returned NEED_CONTEXT, w')
    \<and> currentRound w' = currentRound w + 1
    \<and> currentRoundDir w' = Some (currentRound w + 1)
    \<and> workspace w' = workspace w
    \<and> (\<forall>m. m \<noteq> currentRound w + 1 \<longrightarrow> staging w' m = staging w m)
    \<and> stagedFiles_of data w
        = (case staging w 1 STRUCTURE_FILE of None \<Rightarrow> [] | Some listing \<Rightarrow> [STRUCTURE_FILE])
          @ existing (workspace w) reqs
    \<and> dom (staging w' (currentRound w + 1))
        = dom (staging w (currentRound w + 1))
          \<union> (case staging w 1 STRUCTURE_FILE of None \<Rightarrow> {} | Some listing \<Rightarrow> {STRUCTURE_FILE})
          \<union> flatName ` set (existing (workspace w) reqs)
    \<and> (STRUCTURE_FILE \<notin> flatName ` set (existing (workspace w) reqs)
         \<and> staging w 1 STRUCTURE_FILE \<noteq> None \<longrightarrow>
         staging w' (currentRound w + 1) STRUCTURE_FILE = staging w 1 STRUCTURE_FILE)
    \<and> notices w' = notices w @ [RoundPrepared (currentRound w + 1) (length (stagedFiles_of data w))]"
proof -
  let ?n = "currentRound w + 1"
  have nn: "data \<noteq> JNull" using st by auto
  show ?thesis
  proof (cases "staging w 1 STRUCTURE_FILE")
    case None
    from stageRequested_strings[OF nd, of "staging w ?n" "[]"]
    obtain dir' where d: "stageRequested (workspace w) (map JString reqs) (staging w ?n) []
                  = (True, dir', existing (workspace w) reqs)"
      and dm: "dom dir' = dom (staging w ?n) \<union> flatName ` set (existing (workspace w) reqs)"
      by auto
    have p: "provisionRound data w = (True, ?n, dir', existing (workspace w) reqs)"
      using None rq d by (simp add: provisionRound_def Let_def)
    show ?thesis
      using st nn p dm None
      by (simp add: handleData_def needContextBranch_def notify_def stagedFiles_of_def Let_def)
  next
    case (Some listing)
    let ?d1 = "(staging w ?n)(STRUCTURE_FILE \<mapsto> listing)"
    from stageRequested_strings[OF nd, of ?d1 "[STRUCTURE_FILE]"]
    obtain dir' where d: "stageRequested (workspace w) (map JString reqs) ?d1 [STRUCTURE_FILE]
                  = (True, dir', [STRUCTURE_FILE] @ existing (workspace w) reqs)"
      and dm: "dom dir' = dom ?d1 \<union> flatName ` set (existing (workspace w) reqs)"
      and fr: "\<forall>k. k \<notin> flatName ` set (existing (workspace w) reqs) \<longrightarrow> dir' k = ?d1 k"
      by blast
    have p: "provisionRound data w
               = (True, ?n, dir', [STRUCTURE_FILE] @ existing (workspace w) reqs)"
      using Some rq d by (simp add: provisionRound_def Let_def)
    have dm': "dom dir' = dom (staging w ?n) \<union> {STRUCTURE_FILE}
                 \<union> flatName ` set (existing (workspace w) reqs)"
      using dm by auto
    have keep: "STRUCTURE_FILE \<notin> flatName ` set (existing (workspace w) reqs)
                  \<longrightarrow> dir' STRUCTURE_FILE = Some listing"
      using fr by simp
    show ?thesis
      using st nn p dm' keep Some
      by (simp add: handleData_def needContextBranch_def notify_def stagedFiles_of_def Let_def)
  qed
qed

theorem need_context_provisions_round_witness:
  "get_prop request_response ''status'' = Some (JString ''NEED_CONTEXT'')
   \<and> get_prop request_response ''request_files''
       = Some (JArray (map JString [''src/a.ts'', ''src/missing.ts'']))
   \<and> workspace start_world ''src/a.ts'' = Some (File ''old'')
   \<and> workspace start_world ''src/missing.ts'' = None
   \<and> fst (handleData saving_editor ''goal'' request_response start_world) = Returned NEED_CONTEXT
   \<and> currentRound (snd (handleData saving_editor ''goal'' request_response start_world)) = 2
   \<and> stagedFiles_of request_response start_world = [STRUCTURE_FILE, ''src/a.ts'']
   \<and> dom (staging (snd (handleData saving_editor ''goal'' request_response start_world)) 2)
       = {STRUCTURE_FILE, ''src__a.ts.txt''}"
proof -
  obtain w' where h: "handleData saving_editor ''goal'' request_response start_world
                        = (Returned NEED_CONTEXT, w')"
    and r: "currentRound w' = currentRound start_world + 1"
    and s: "stagedFiles_of request_response start_world
        = (case staging start_world 1 STRUCTURE_FILE of None \<Rightarrow> [] | Some listing \<Rightarrow> [STRUCTURE_FILE])
          @ existing (workspace start_world) [''src/a.ts'', ''src/missing.ts'']"
    and d: "dom (staging w' (currentRound start_world + 1))
        = dom (staging start_world (currentRound start_world + 1))
          \<union> (case staging start_world 1 STRUCTURE_FILE of None \<Rightarrow> {} | Some listing \<Rightarrow> {STRUCTURE_FILE})
          \<union> flatName ` set (existing (workspace start_world) [''src/a.ts'', ''src/missing.ts''])"
    using need_context_provisions_round[OF request_response_fields start_world_no_directory,
            of saving_editor "''goal''"]
    by (elim exE conjE) (rule that; assumption)
  have c: "currentRound start_world = 1" by (simp add: start_world_def)
  have l: "staging start_world 1 STRUCTURE_FILE = Some ''tree''"
    by (simp add: start_world_def STRUCTURE_FILE_def)
  have e: "existing (workspace start_world) [''src/a.ts'', ''src/missing.ts''] = [''src/a.ts'']"
    by (simp add: existing_def start_world_def)
  have f: "flatName ''src/a.ts'' = ''src__a.ts.txt''" by (simp add: flatName_def)
  have z: "dom (staging start_world 2) = {}" by (simp add: start_world_def)
  have a: "workspace start_world ''src/a.ts'' = Some (File ''old'')"
    and m: "workspace start_world ''src/missing.ts'' = None" by (simp_all add: start_world_def)
  have c2: "currentRound start_world + 1 = 2" by (simp add: start_world_def)
  have r': "currentRound w' = 2" using r unfolding c2 .
  have s': "stagedFiles_of request_response start_world = [STRUCTURE_FILE, ''src/a.ts'']"
    using s unfolding l e by simp
  have d': "dom (staging w' 2) = {STRUCTURE_FILE, ''src__a.ts.txt''}"
    using d unfolding c2 l e by (simp add: f z insert_commute)
  from h r' s' d' show ?thesis
    using request_response_fields a m by simp
qed

text \<open>
  The listing is read from \<^verbatim>\<open>round_1\<close>, not from the round before the new one. After a
  COMPLETED response has made round 2 as a snapshot, which holds no listing, a
  NEED\_CONTEXT response makes round 3 with the listing of round 1.
\<close>

theorem listing_is_taken_from_round_1:
  "fst (handleData saving_editor ''goal'' rewrite_response start_world) = Returned COMPLETED
   \<and> currentRound after_rewrite = 2
   \<and> staging after_rewrite 1 STRUCTURE_FILE = Some ''tree''
   \<and> staging after_rewrite 2 STRUCTURE_FILE = None
   \<and> fst (handleData saving_editor ''goal'' request_response after_rewrite) = Returned NEED_CONTEXT
   \<and> currentRound after_request = 3
   \<and> staging after_request 3 STRUCTURE_FILE = Some ''tree''
   \<and> stagedFiles_of request_response after_rewrite = [STRUCTURE_FILE, ''src/a.ts'']
   \<and> stagedFiles_of request_response after_rewrite
        \<noteq> (case staging after_rewrite (currentRound after_rewrite) STRUCTURE_FILE of
             None \<Rightarrow> [] | Some listing \<Rightarrow> [STRUCTURE_FILE])
           @ existing (workspace after_rewrite) [''src/a.ts'', ''src/missing.ts'']"
  by code_simp

text \<open>
  C5. A parsed array becomes the data with status COMPLETED and the array as
  \<^verbatim>\<open>code_changes\<close>; so does every response whose first parsing candidate is an array.
  An object without a \<^verbatim>\<open>status\<close> property whose \<^verbatim>\<open>code_changes\<close> is an array gets the
  status COMPLETED and keeps every other property. The bare array of the specification
  gives status COMPLETED and one change, the FULL\_REWRITE of \<open>a.ts\<close>.
\<close>

theorem top_level_array_is_completed:
  "(\<forall>vs. coerce (JArray vs)
            = JObject [(''status'', JString ''COMPLETED''), (''code_changes'', JArray vs)])
   \<and> (\<forall>ps vs. map_of ps ''status'' = None \<and> map_of ps ''code_changes'' = Some (JArray vs) \<longrightarrow>
        coerce (JObject ps) = JObject (ps @ [(''status'', JString ''COMPLETED'')])
        \<and> get_prop (coerce (JObject ps)) ''status'' = Some (JString ''COMPLETED'')
        \<and> (\<forall>k. k \<noteq> ''status'' \<longrightarrow> get_prop (coerce (JObject ps)) k = map_of ps k))
   \<and> (\<forall>JSON_parse jsonText vs.
        first_parsed JSON_parse (candidates (normalizeJsonLikeResponse (trim jsonText)))
          = Some (JArray vs) \<longrightarrow>
        parseResponse JSON_parse jsonText
          = Some (JObject [(''status'', JString ''COMPLETED''), (''code_changes'', JArray vs)]))
   \<and> get_prop (coerce bare_array) ''status'' = Some (JString ''COMPLETED'')
   \<and> get_prop (coerce bare_array) ''code_changes'' = Some bare_array
   \<and> List.map_filter as_change (filter selected (case bare_array of JArray vs \<Rightarrow> vs | _ \<Rightarrow> []))
        = [\<lparr>file_path = ''a.ts'', type = ''FULL_REWRITE'', content = ''x''\<rparr>]"
proof (intro conjI allI impI)
  fix vs
  show "coerce (JArray vs)
          = JObject [(''status'', JString ''COMPLETED''), (''code_changes'', JArray vs)]"
    by (simp add: coerce_def)
next
  fix ps vs
  assume a: "map_of ps ''status'' = None \<and> map_of ps ''code_changes'' = Some (JArray vs)"
  then show c: "coerce (JObject ps) = JObject (ps @ [(''status'', JString ''COMPLETED'')])"
    by (simp add: coerce_def set_prop_fresh)
  from a show "get_prop (coerce (JObject ps)) ''status'' = Some (JString ''COMPLETED'')"
    by (simp add: c map_add_def)
  fix k :: string
  assume "k \<noteq> ''status''"
  with a show "get_prop (coerce (JObject ps)) k = map_of ps k"
    by (simp add: c map_add_def split: option.splits)
next
  fix JSON_parse jsonText vs
  assume "first_parsed JSON_parse (candidates (normalizeJsonLikeResponse (trim jsonText)))
            = Some (JArray vs)"
  then show "parseResponse JSON_parse jsonText
          = Some (JObject [(''status'', JString ''COMPLETED''), (''code_changes'', JArray vs)])"
    by (simp add: parseResponse_def coerce_def)
next
  show "get_prop (coerce bare_array) ''status'' = Some (JString ''COMPLETED'')"
    by (simp add: coerce_def bare_array_def)
  show "get_prop (coerce bare_array) ''code_changes'' = Some bare_array"
    by (simp add: coerce_def bare_array_def)
  show "List.map_filter as_change (filter selected (case bare_array of JArray vs \<Rightarrow> vs | _ \<Rightarrow> []))
        = [\<lparr>file_path = ''a.ts'', type = ''FULL_REWRITE'', content = ''x''\<rparr>]"
    by (simp add: bare_array_def selected_def as_change_def List.map_filter_def)
qed

theorem top_level_array_is_completed_witness:
  "map_of [(''reasoning'', JString ''r''), (''code_changes'', JArray [])] ''status'' = None
   \<and> coerce (JObject [(''reasoning'', JString ''r''), (''code_changes'', JArray [])])
       = JObject [(''reasoning'', JString ''r''), (''code_changes'', JArray []),
                  (''status'', JString ''COMPLETED'')]
   \<and> parseResponse toy_parse ''[1]''
       = Some (JObject [(''status'', JString ''COMPLETED''), (''code_changes'', JArray [JNumber 1])])"
proof -
  let ?ps = "[(''reasoning'', JString ''r''), (''code_changes'', JArray [])]"
  have a: "map_of ?ps ''status'' = None \<and> map_of ?ps ''code_changes'' = Some (JArray [])"
    by simp
  from top_level_array_is_completed[THEN conjunct2, THEN conjunct1, rule_format, OF a]
  have c: "coerce (JObject ?ps) = JObject (?ps @ [(''status'', JString ''COMPLETED'')])"
    by blast
  have t: "normalizeJsonLikeResponse (trim ''[1]'') = ''[1]''" by code_simp
  have f: "first_parsed toy_parse (candidates (normalizeJsonLikeResponse (trim ''[1]'')))
             = Some (JArray [JNumber 1])"
    unfolding t by code_simp
  from top_level_array_is_completed[THEN conjunct2, THEN conjunct2, THEN conjunct1,
         rule_format, OF f]
  have p: "parseResponse toy_parse ''[1]''
       = Some (JObject [(''status'', JString ''COMPLETED''), (''code_changes'', JArray [JNumber 1])])" .
  from a c p show ?thesis by simp
qed




text \<open>
  C7, evaluated where the code departs from it. The text \<open>null\<close> parses, and its value
  has no status. The value is \<^verbatim>\<open>null\<close>, so the read of \<^verbatim>\<open>data.status\<close> that
  chooses the branch throws a \<^verbatim>\<open>TypeError\<close> outside the \<^verbatim>\<open>try\<close> block: the handler
  returns no action and shows no notification, where a response with a missing status is
  to end in the warning \<^const>\<open>MissingStatus\<close>. The world is left as it was.
\<close>

theorem null_response_throws_without_notice:
  "parseResponse (JSON_parse toy_env) ''null'' = Some JNull
   \<and> get_prop JNull ''status'' = None
   \<and> handleAIResponse toy_env ''null'' ''goal'' start_world = (Threw, start_world)
   \<and> fst (handleAIResponse toy_env ''null'' ''goal'' start_world) \<noteq> Returned UNKNOWN
   \<and> notices (snd (handleAIResponse toy_env ''null'' ''goal'' start_world)) = []"
proof -
  have n: "normalizeJsonLikeResponse (trim ''null'') = ''null''" by code_simp
  have p: "parseResponse (JSON_parse toy_env) ''null'' = Some JNull"
    unfolding parseResponse_def n Let_def by code_simp
  have h: "handleAIResponse toy_env ''null'' ''goal'' start_world = (Threw, start_world)"
    by (simp add: handleAIResponse_def p handleData_def)
  have n0: "notices start_world = []" by (simp add: start_world_def)
  show ?thesis by (simp add: p h n0)
qed

text \<open>
  C8, evaluated where the code departs from it. A \<^verbatim>\<open>content\<close> field whose diff is a
  properly escaped JSON string has no raw line end, yet the expression of
  \<^const>\<open>normalizeJsonLikeResponse\<close> matches it and every backslash is doubled. The
  string then decodes to text with a backslash and an \<open>n\<close> where the line ends were, in
  which the block expression finds no block.
\<close>

theorem escaped_content_is_escaped_again:
  "normalizeJsonLikeResponse (''{'' @ escaped_field @ ''}'')
     = ''{'' @ CONTENT_KEY @ '':'' @ [DQ] @ ''<<<<<<< SEARCH'' @ twice_escaped_nl @ ''line2''
         @ twice_escaped_nl @ ''======='' @ twice_escaped_nl @ ''CHANGED'' @ twice_escaped_nl
         @ ''>>>>>>> REPLACE'' @ [DQ] @ ''}''
   \<and> normalizeJsonLikeResponse (''{'' @ escaped_field @ ''}'') \<noteq> ''{'' @ escaped_field @ ''}''
   \<and> blocks (''<<<<<<< SEARCH'' @ escaped_nl @ ''line2'' @ escaped_nl @ ''======='' @ escaped_nl
               @ ''CHANGED'' @ escaped_nl @ ''>>>>>>> REPLACE'') = []"
  by code_simp

text \<open>
  C9. A FULL\_REWRITE change gives its own content whatever the working content was, and
  applying it a second time gives the same again. For a file with this one change the
  prepared edit holds that content, both when the file is on disk and when it is not,
  and the change given twice prepares the same edit.
\<close>

theorem full_rewrite_gives_content:
  "(\<forall>(c :: change) prior ns. type c = ''FULL_REWRITE'' \<longrightarrow>
      applyChange (prior, ns) c = (content c, ns)
      \<and> applyChange (applyChange (prior, ns) c) c = applyChange (prior, ns) c)
   \<and> (\<forall>(c :: change) e ws f. type c = ''FULL_REWRITE'' \<and> \<not> prepare_throws e f \<and> ws f = None \<longrightarrow>
      prepareFile e ws f [c] = Some (CreateWith f (content c), [])
      \<and> prepareFile e ws f [c, c] = prepareFile e ws f [c])
   \<and> (\<forall>(c :: change) e ws f prior.
      type c = ''FULL_REWRITE'' \<and> \<not> prepare_throws e f \<and> ws f = Some (File prior) \<longrightarrow>
      prepareFile e ws f [c] = Some (ReplaceAll f (content c), [])
      \<and> prepareFile e ws f [c, c] = prepareFile e ws f [c])"
  by (simp add: applyChange_def prepareFile_def)

theorem full_rewrite_gives_content_witness:
  "applyChange (''old'', []) \<lparr>file_path = ''a.ts'', type = ''FULL_REWRITE'', content = ''x''\<rparr>
     = (''x'', [])
   \<and> applyChange (''x'', []) \<lparr>file_path = ''a.ts'', type = ''FULL_REWRITE'', content = ''x''\<rparr>
     = (''x'', [])
   \<and> prepareFile saving_editor Map.empty ''a.ts''
        [\<lparr>file_path = ''a.ts'', type = ''FULL_REWRITE'', content = ''x''\<rparr>]
     = Some (CreateWith ''a.ts'' ''x'', [])"
proof -
  let ?c = "\<lparr>file_path = ''a.ts'', type = ''FULL_REWRITE'', content = ''x''\<rparr>"
  have t: "type ?c = ''FULL_REWRITE''" by simp
  have p: "\<not> prepare_throws saving_editor ''a.ts''" by (simp add: saving_editor_def)
  from full_rewrite_gives_content t
  have a: "applyChange (''old'', []) ?c = (content ?c, [])"
    and b: "applyChange (''x'', []) ?c = (content ?c, [])" by blast+
  have n: "Map.empty ''a.ts'' = (None :: node option)" by simp
  from full_rewrite_gives_content[THEN conjunct2, THEN conjunct1, rule_format,
         where c = ?c and e = saving_editor and ws = Map.empty and f = "''a.ts''"] t p n
  have c: "prepareFile saving_editor Map.empty ''a.ts'' [?c] = Some (CreateWith ''a.ts'' (content ?c), [])"
    by simp
  from a b c show ?thesis by simp
qed

text \<open>
  C10. When no \<^verbatim>\<open>*** Update File:\<close> line of the envelope names the file of a PATCH
  change, \<^const>\<open>patchEnvelopeToDiffForFile\<close> gives the empty text, the change leaves the
  working content and the notifications as they are, and the file still adds one to
  \<^verbatim>\<open>appliedCount\<close>: its step of the preparation loop appends an edit with the unchanged
  content (the empty text for a file that is not on disk) and raises nothing, as long as
  \<^verbatim>\<open>mkdirSync\<close> and \<^verbatim>\<open>openTextDocument\<close> do not throw for it.
\<close>

theorem patch_without_section_is_counted_noop:
  assumes "\<forall>l\<in>set (split_lines patch).
             startsWith l UPDATE_FILE \<longrightarrow> trim (drop (length UPDATE_FILE) l) \<noteq> tf"
  shows "patchEnvelopeToDiffForFile patch tf = []
    \<and> applyChange (cur, ns) \<lparr>file_path = tf, type = ''PATCH'', content = patch\<rparr> = (cur, ns)
    \<and> (\<not> prepare_throws e tf \<and> ws tf = Some (File cur) \<longrightarrow>
         prepareStep e ws (edit, appliedCount, raised)
           (tf, [\<lparr>file_path = tf, type = ''PATCH'', content = patch\<rparr>])
         = (edit @ [ReplaceAll tf cur], appliedCount + 1, raised))
    \<and> (\<not> prepare_throws e tf \<and> ws tf = None \<longrightarrow>
         prepareStep e ws (edit, appliedCount, raised)
           (tf, [\<lparr>file_path = tf, type = ''PATCH'', content = patch\<rparr>])
         = (edit @ [CreateWith tf []], appliedCount + 1, raised))"
  using patchEnvelopeToDiffForFile_no_section[OF assms] applyChange_patch_no_section[OF assms]
  by (simp add: prepareStep_def prepareFile_def)

theorem patch_without_section_is_counted_noop_witness:
  "patchEnvelopeToDiffForFile other_file_patch ''src/a.ts'' = []
   \<and> applyChange (''old'', [])
        \<lparr>file_path = ''src/a.ts'', type = ''PATCH'', content = other_file_patch\<rparr> = (''old'', [])
   \<and> prepareAll saving_editor (workspace start_world)
        [(''src/a.ts'', [\<lparr>file_path = ''src/a.ts'', type = ''PATCH'', content = other_file_patch\<rparr>])]
      = ([ReplaceAll ''src/a.ts'' ''old''], 1, [])"
proof -
  note t = patch_without_section_is_counted_noop[OF other_file_patch_no_section,
             of "''old''" "[]" saving_editor "workspace start_world" "[]" 0 "[]"]
  have p: "\<not> prepare_throws saving_editor ''src/a.ts''
           \<and> workspace start_world ''src/a.ts'' = Some (File ''old'')"
    by (simp add: saving_editor_def start_world_def)
  from t p show ?thesis by (simp add: prepareAll_def)
qed

end
